theory Spec2Isabelle
  imports Complex_Main "HOL-Library.Signed_Division"
begin

section \<open>JavaScript values as the engine uses them\<close>

text \<open>
  The development embeds the second (current) revision of the Markov jazz chord engine,
  class \<open>MarkovJazzEngine\<close> of \<open>engine.js\<close>, method by method.

  \<^item> Numbers: the weights and settings are JavaScript doubles. They are idealised as
    rationals, so \<open>*\<close>, \<open>+\<close> and \<open>/\<close> below are exact; rounding of the double
    arithmetic is outside the model. Overflow to an infinity is modelled where it
    decides whether a method returns, in \<open>getChordQuality\<close>.
  \<^item> Strings are byte strings. The few non-ASCII glyphs of the source are written as
    their UTF-8 bytes; every pattern the source searches for is ASCII.
  \<^item> An object literal is the list of its own entries in \<open>Object.entries\<close> order.
    Property names here are degree, quality or modulation tokens, none of which is an
    array index, so enumeration order is insertion order. A lookup \<open>obj[k]\<close> also
    finds what a plain object inherits from \<open>Object.prototype\<close>: where the key is a
    degree of the engine state and the value decides what is drawn from (the transition
    tables, the counts of the window) the lookup is \<open>js_get\<close> below. The lookups of
    the note, interval and display tables (\<open>normalizeNote\<close>, \<open>getDegreeInterval\<close>,
    \<open>formatDegree\<close>) are of own entries, which is what the source finds for every
    key that is not the name of a member of \<open>Object.prototype\<close>; no degree that the
    engine emits is such a name.
  \<^item> \<open>undefined\<close> is \<open>None\<close>; a thrown \<open>TypeError\<close> is \<open>Inl TypeError\<close>.
  \<^item> \<open>Math.random()\<close> is a value of type \<open>unit01\<close>, the half-open interval from
    0 to 1. The successive results are given by a function \<open>rnd\<close> from the number of
    draws made so far; the engine state counts the draws.
\<close>

datatype error = TypeError

type_synonym dist = "(string \<times> rat) list"

typedef unit01 = "{r::rat. 0 \<le> r \<and> r < 1}"
  by (rule exI[of _ 0]) simp

setup_lifting type_definition_unit01

lift_definition u01 :: "rat \<Rightarrow> unit01" is "\<lambda>r. if 0 \<le> r \<and> r < 1 then r else 0"
  by auto

text \<open>\<open>obj[k] = v\<close>: overwrite in place when the key exists, append otherwise.\<close>

definition js_set :: "(string \<times> 'a) list \<Rightarrow> string \<Rightarrow> 'a \<Rightarrow> (string \<times> 'a) list" where
  "js_set obj k v =
     (if k \<in> set (map fst obj)
      then map (\<lambda>(k', v'). if k' = k then (k', v) else (k', v')) obj
      else obj @ [(k, v)])"

text \<open>
  The property names that every plain object inherits from \<open>Object.prototype\<close>: the
  standard methods, \<open>constructor\<close>, and the legacy accessors. The value of each is a
  function (for \<open>__proto__\<close> the prototype object itself): it is truthy, and it has no
  enumerable entry of its own, so its spread copy is \<open>{}\<close> and its \<open>Object.entries\<close>
  is empty.
\<close>

definition OBJECT_PROTOTYPE :: "string list" where
  "OBJECT_PROTOTYPE =
     [''constructor'', ''__defineGetter__'', ''__defineSetter__'', ''hasOwnProperty'',
      ''__lookupGetter__'', ''__lookupSetter__'', ''isPrototypeOf'', ''propertyIsEnumerable'',
      ''toString'', ''valueOf'', ''__proto__'', ''toLocaleString'']"

text \<open>
  \<open>obj[k]\<close> on a plain object: the own entry if there is one, else the inherited
  member if \<open>k\<close> names one, else \<open>undefined\<close>.
\<close>

datatype 'a lookup = Own 'a | Inherited | Missing

definition js_get :: "(string \<times> 'a) list \<Rightarrow> string \<Rightarrow> 'a lookup" where
  "js_get obj k =
     (case map_of obj k of
        Some v \<Rightarrow> Own v
      | None \<Rightarrow> if k \<in> set OBJECT_PROTOTYPE then Inherited else Missing)"

text \<open>\<open>xs[i]\<close> for an integer \<open>i\<close>: \<open>undefined\<close> outside the array.\<close>

definition js_nth :: "'a list \<Rightarrow> int \<Rightarrow> 'a option" where
  "js_nth xs i = (if 0 \<le> i \<and> i < int (length xs) then Some (xs ! nat i) else None)"

text \<open>\<open>xs.indexOf(x)\<close>: the first position of \<open>x\<close>, or \<open>-1\<close>.\<close>

fun indexOf :: "'a list \<Rightarrow> 'a \<Rightarrow> int" where
  "indexOf [] x = - 1"
| "indexOf (y # ys) x =
     (if y = x then 0 else (let i = indexOf ys x in if i < 0 then - 1 else i + 1))"

text \<open>\<open>s.replace(pat, rep)\<close> with a string pattern: the first occurrence only.\<close>

fun js_replace :: "string \<Rightarrow> string \<Rightarrow> string \<Rightarrow> string" where
  "js_replace pat rep [] = (if pat = [] then rep else [])"
| "js_replace pat rep (c # cs) =
     (if take (length pat) (c # cs) = pat then rep @ drop (length pat) (c # cs)
      else c # js_replace pat rep cs)"

text \<open>\<open>s.includes(pat)\<close> for strings: does the pattern occur?\<close>

fun occurs :: "string \<Rightarrow> string \<Rightarrow> bool" where
  "occurs pat [] = (pat = [])"
| "occurs pat (c # cs) = (take (length pat) (c # cs) = pat \<or> occurs pat cs)"

text \<open>Case mapping, on the ASCII letters (all that degree tokens contain).\<close>

definition upper_char :: "char \<Rightarrow> char" where
  "upper_char c =
     (case map_of (zip ''abcdefghijklmnopqrstuvwxyz'' ''ABCDEFGHIJKLMNOPQRSTUVWXYZ'') c of
        Some u \<Rightarrow> u | None \<Rightarrow> c)"

definition lower_char :: "char \<Rightarrow> char" where
  "lower_char c =
     (case map_of (zip ''ABCDEFGHIJKLMNOPQRSTUVWXYZ'' ''abcdefghijklmnopqrstuvwxyz'') c of
        Some l \<Rightarrow> l | None \<Rightarrow> c)"

definition toUpperCase :: "string \<Rightarrow> string" where
  "toUpperCase s = map upper_char s"

definition toLowerCase :: "string \<Rightarrow> string" where
  "toLowerCase s = map lower_char s"

text \<open>The glyphs of the source that are not ASCII, as UTF-8.\<close>

definition arrow :: string where      \<comment> \<open>U+2192, the separator of override keys\<close>
  "arrow = [CHR 0xE2, CHR 0x86, CHR 0x92]"

definition delta :: string where      \<comment> \<open>U+0394\<close>
  "delta = [CHR 0xCE, CHR 0x94]"

definition oslash :: string where     \<comment> \<open>U+00F8\<close>
  "oslash = [CHR 0xC3, CHR 0xB8]"

definition degree_sign :: string where  \<comment> \<open>U+00B0\<close>
  "degree_sign = [CHR 0xC2, CHR 0xB0]"

definition sharp :: string where      \<comment> \<open>U+266F\<close>
  "sharp = [CHR 0xE2, CHR 0x99, CHR 0xAF]"

definition flat :: string where       \<comment> \<open>U+266D\<close>
  "flat = [CHR 0xE2, CHR 0x99, CHR 0xAD]"

section \<open>The static tables\<close>

definition NOTES :: "string list" where
  "NOTES = [''C'', ''Db'', ''D'', ''Eb'', ''E'', ''F'', ''Gb'', ''G'', ''Ab'', ''A'', ''Bb'', ''B'']"

definition ENHARMONIC :: "(string \<times> string) list" where
  "ENHARMONIC =
     [(''C#'', ''Db''), (''D#'', ''Eb''), (''E#'', ''F''), (''F#'', ''Gb''), (''G#'', ''Ab''),
      (''A#'', ''Bb''), (''B#'', ''C''), (''Cb'', ''B''), (''Fb'', ''E'')]"

definition MAJOR_DEGREES :: "(string \<times> int) list" where
  "MAJOR_DEGREES =
     [(''I'', 0), (''bII'', 1), (''II'', 2), (''bIII'', 3), (''III'', 4), (''IV'', 5),
      (''bV'', 6), (''V'', 7), (''bVI'', 8), (''VI'', 9), (''bVII'', 10), (''VII'', 11)]"

definition DEGREE_TRANSITIONS :: "(string \<times> dist) list" where
  "DEGREE_TRANSITIONS =
     [(''I'', [(''ii'', 0.22), (''IV'', 0.18), (''V'', 0.12), (''vi'', 0.15), (''iii'', 0.10),
               (''bVII'', 0.05), (''bIII'', 0.04), (''bVI'', 0.04), (''II'', 0.05), (''I'', 0.05)]),
      (''ii'', [(''V'', 0.50), (''bII'', 0.10), (''bVII'', 0.08), (''vi'', 0.08),
                (''iii'', 0.06), (''IV'', 0.06), (''I'', 0.07), (''ii'', 0.05)]),
      (''iii'', [(''vi'', 0.35), (''IV'', 0.20), (''ii'', 0.15), (''bIII'', 0.08),
                 (''V'', 0.10), (''I'', 0.07), (''iii'', 0.05)]),
      (''IV'', [(''V'', 0.25), (''I'', 0.15), (''ii'', 0.15), (''iv'', 0.10),
                (''bVII'', 0.10), (''iii'', 0.08), (''vi'', 0.08), (''IV'', 0.04), (''bII'', 0.05)]),
      (''V'', [(''I'', 0.50), (''vi'', 0.15), (''IV'', 0.08), (''bVI'', 0.08),
               (''iii'', 0.06), (''V'', 0.05), (''bVII'', 0.04), (''ii'', 0.04)]),
      (''vi'', [(''ii'', 0.30), (''IV'', 0.20), (''V'', 0.15), (''iii'', 0.10),
                (''bVI'', 0.08), (''I'', 0.08), (''vi'', 0.04), (''bVII'', 0.05)]),
      (''vii'', [(''I'', 0.30), (''iii'', 0.25), (''V'', 0.15), (''vi'', 0.10),
                 (''ii'', 0.10), (''IV'', 0.10)]),
      (''bII'', [(''I'', 0.60), (''V'', 0.15), (''bVII'', 0.10), (''ii'', 0.10), (''vi'', 0.05)]),
      (''bIII'', [(''IV'', 0.30), (''bVII'', 0.25), (''ii'', 0.15), (''vi'', 0.10),
                  (''I'', 0.10), (''V'', 0.10)]),
      (''bVI'', [(''bVII'', 0.30), (''V'', 0.25), (''ii'', 0.15), (''IV'', 0.15),
                 (''I'', 0.10), (''bII'', 0.05)]),
      (''bVII'', [(''I'', 0.35), (''IV'', 0.20), (''bVI'', 0.15), (''V'', 0.10),
                  (''ii'', 0.10), (''bIII'', 0.10)]),
      (''iv'', [(''I'', 0.25), (''V'', 0.25), (''bVII'', 0.15), (''ii'', 0.15),
                (''bVI'', 0.10), (''IV'', 0.10)]),
      (''II'', [(''V'', 0.70), (''ii'', 0.10), (''bII'', 0.10), (''I'', 0.10)]),
      (''III'', [(''vi'', 0.70), (''IV'', 0.10), (''ii'', 0.10), (''I'', 0.10)]),
      (''VI'', [(''ii'', 0.70), (''V'', 0.10), (''IV'', 0.10), (''I'', 0.10)]),
      (''#IV'', [(''V'', 0.60), (''I'', 0.20), (''ii'', 0.20)])]"

definition MINOR_DEGREE_TRANSITIONS :: "(string \<times> dist) list" where
  "MINOR_DEGREE_TRANSITIONS =
     [(''I'', [(''iv'', 0.22), (''V'', 0.15), (''bVII'', 0.12), (''bVI'', 0.12), (''ii'', 0.15),
               (''bIII'', 0.08), (''v'', 0.04), (''II'', 0.05), (''I'', 0.07)]),
      (''ii'', [(''V'', 0.55), (''bII'', 0.08), (''bVII'', 0.08), (''iv'', 0.08),
                (''I'', 0.08), (''bVI'', 0.07), (''ii'', 0.06)]),
      (''bIII'', [(''bVI'', 0.25), (''bVII'', 0.25), (''iv'', 0.15), (''V'', 0.10),
                  (''ii'', 0.10), (''I'', 0.10), (''bIII'', 0.05)]),
      (''iv'', [(''V'', 0.30), (''bVII'', 0.15), (''I'', 0.20), (''bVI'', 0.10),
                (''ii'', 0.10), (''bIII'', 0.08), (''iv'', 0.04), (''bII'', 0.03)]),
      (''v'', [(''bVI'', 0.25), (''bVII'', 0.25), (''I'', 0.20), (''iv'', 0.15),
               (''bIII'', 0.10), (''v'', 0.05)]),
      (''V'', [(''I'', 0.50), (''bVI'', 0.15), (''iv'', 0.10), (''bVII'', 0.06),
               (''bIII'', 0.06), (''V'', 0.05), (''ii'', 0.04), (''bII'', 0.04)]),
      (''vi'', [(''ii'', 0.30), (''IV'', 0.20), (''V'', 0.15), (''I'', 0.15),
                (''iv'', 0.10), (''bVII'', 0.10)]),
      (''bVI'', [(''bVII'', 0.30), (''V'', 0.20), (''iv'', 0.15), (''ii'', 0.12),
                 (''I'', 0.10), (''bII'', 0.05), (''bIII'', 0.08)]),
      (''bVII'', [(''I'', 0.30), (''bIII'', 0.20), (''bVI'', 0.15), (''V'', 0.10),
                  (''iv'', 0.10), (''ii'', 0.10), (''bVII'', 0.05)]),
      (''bII'', [(''I'', 0.55), (''V'', 0.15), (''bVII'', 0.10), (''iv'', 0.10), (''ii'', 0.10)]),
      (''II'', [(''V'', 0.70), (''ii'', 0.10), (''bII'', 0.10), (''I'', 0.10)]),
      (''III'', [(''bVI'', 0.40), (''iv'', 0.20), (''bVII'', 0.15), (''I'', 0.10),
                 (''V'', 0.10), (''ii'', 0.05)]),
      (''VI'', [(''ii'', 0.70), (''V'', 0.10), (''iv'', 0.10), (''I'', 0.10)]),
      (''IV'', [(''V'', 0.25), (''I'', 0.20), (''ii'', 0.15), (''bVII'', 0.15),
                (''iv'', 0.10), (''bVI'', 0.10), (''IV'', 0.05)])]"

text \<open>The override table is keyed by the string \<open>previous \<rightarrow> current\<close>.\<close>

definition SECOND_ORDER_OVERRIDES :: "(string \<times> dist) list" where
  "SECOND_ORDER_OVERRIDES =
     [(''ii'' @ arrow @ ''V'',
         [(''I'', 0.75), (''vi'', 0.10), (''bVI'', 0.05), (''IV'', 0.04), (''iii'', 0.03), (''bVII'', 0.03)]),
      (''iii'' @ arrow @ ''vi'',
         [(''ii'', 0.45), (''IV'', 0.20), (''V'', 0.10), (''I'', 0.08), (''bVI'', 0.07), (''iii'', 0.05), (''bVII'', 0.05)]),
      (''vi'' @ arrow @ ''ii'',
         [(''V'', 0.55), (''bII'', 0.10), (''bVII'', 0.07), (''IV'', 0.08), (''I'', 0.08), (''iii'', 0.06), (''II'', 0.06)]),
      (''II'' @ arrow @ ''V'',
         [(''I'', 0.70), (''vi'', 0.12), (''bVI'', 0.06), (''IV'', 0.05), (''iii'', 0.04), (''bVII'', 0.03)]),
      (''VI'' @ arrow @ ''ii'',
         [(''V'', 0.55), (''bII'', 0.10), (''bVII'', 0.07), (''IV'', 0.08), (''I'', 0.08), (''iii'', 0.06), (''ii'', 0.06)]),
      (''III'' @ arrow @ ''vi'',
         [(''ii'', 0.40), (''IV'', 0.20), (''V'', 0.15), (''I'', 0.08), (''bVI'', 0.07), (''iii'', 0.05), (''bVII'', 0.05)]),
      (''IV'' @ arrow @ ''V'',
         [(''I'', 0.55), (''vi'', 0.15), (''bVI'', 0.10), (''ii'', 0.08), (''iii'', 0.06), (''bVII'', 0.03), (''V'', 0.03)]),
      (''bVI'' @ arrow @ ''bVII'',
         [(''I'', 0.50), (''iv'', 0.15), (''ii'', 0.15), (''V'', 0.10), (''bVI'', 0.05), (''bIII'', 0.05)]),
      (''iv'' @ arrow @ ''V'',
         [(''I'', 0.70), (''bVI'', 0.10), (''iv'', 0.06), (''bVII'', 0.06), (''ii'', 0.04), (''bIII'', 0.04)])]"

text \<open>Each approach sequence: the chords, then the selection weight.\<close>

definition APPROACH_SEQUENCES :: "(string \<times> string list \<times> rat) list" where
  "APPROACH_SEQUENCES =
     [(''I'', [''ii'', ''V'', ''I''], 0.30),
      (''ii'', [''iii'', ''VI'', ''ii''], 0.20),
      (''V'', [''vi'', ''II'', ''V''], 0.30),
      (''vi'', [''vii'', ''III'', ''vi''], 0.20)]"

definition APPROACH_PROBABILITY :: rat where
  "APPROACH_PROBABILITY = 0.12"

definition KEY_MODULATIONS :: dist where
  "KEY_MODULATIONS =
     [(''fifth_up'', 0.25), (''fifth_down'', 0.25), (''relative'', 0.20), (''parallel'', 0.15),
      (''tritone'', 0.08), (''step_up'', 0.04), (''step_down'', 0.03)]"

text \<open>\<open>QUALITY_OPTIONS\<close>, one constant per property.\<close>

definition QUALITY_OPTIONS_tonic :: "string list" where
  "QUALITY_OPTIONS_tonic = [''maj7'', ''maj9'', ''6'', ''69'', ''maj7#11'']"

definition QUALITY_OPTIONS_subdominant :: "string list" where
  "QUALITY_OPTIONS_subdominant = [''maj7'', ''maj9'', ''7'', ''m7'', ''6'']"

definition QUALITY_OPTIONS_dominant :: "string list" where
  "QUALITY_OPTIONS_dominant = [''7'', ''9'', ''13'', ''7#11'', ''7alt'', ''7b9'', ''7#9'', ''sus4'']"

definition QUALITY_OPTIONS_dominantToMinor :: "string list" where
  "QUALITY_OPTIONS_dominantToMinor = [''7'', ''7b9'', ''7#9'', ''7alt'']"

definition QUALITY_OPTIONS_dominantToMajor :: "string list" where
  "QUALITY_OPTIONS_dominantToMajor = [''7'', ''9'', ''13'', ''7#11'', ''sus4'']"

definition QUALITY_OPTIONS_minor :: "string list" where
  "QUALITY_OPTIONS_minor = [''m7'', ''m9'', ''m11'', ''m6'', ''m69'']"

definition QUALITY_OPTIONS_halfDim :: "string list" where
  "QUALITY_OPTIONS_halfDim = [''m7b5'', oslash @ ''7'']"

definition QUALITY_OPTIONS_diminished :: "string list" where
  "QUALITY_OPTIONS_diminished = [''dim7'', degree_sign @ ''7'']"

section \<open>The engine state\<close>

record Key =
  key_root :: string
  key_mode :: string

record Settings =
  keyStability :: rat
  adventurousness :: rat
  complexity :: rat
  twoChordProbability :: rat

text \<open>The object \<open>{ root, quality }\<close> that \<open>formatChordName\<close> returns.\<close>

record ChordName =
  name_root :: "string option"
  name_quality :: string

record Chord =
  chord_root :: "string option"
  chord_quality :: string
  chord_degree :: string
  fullName :: ChordName

record Bar =
  barNumber :: nat
  chords :: "Chord list"
  bar_key :: Key
  keyChanged :: bool

text \<open>
  The fields of \<open>this\<close>, and \<open>draws\<close>, the number of \<open>Math.random()\<close> calls made so
  far. \<open>previousDegree\<close> is \<open>None\<close> for \<open>null\<close>.
\<close>

record Engine =
  settings :: Settings
  currentKey :: Key
  currentDegree :: string
  previousDegree :: "string option"
  barCount :: nat
  history :: "Bar list"
  recentDegrees :: "string list"
  approachQueue :: "string list"
  draws :: nat

text \<open>\<open>Math.random()\<close>: the next value of the source, and one more draw counted.\<close>

definition Math_random :: "(nat \<Rightarrow> unit01) \<Rightarrow> Engine \<Rightarrow> rat \<times> Engine" where
  "Math_random rnd s = (Rep_unit01 (rnd (draws s)), s\<lparr>draws := Suc (draws s)\<rparr>)"

section \<open>Utilities\<close>

definition normalizeNote :: "string \<Rightarrow> string" where
  "normalizeNote note = (case map_of ENHARMONIC note of Some n \<Rightarrow> n | None \<Rightarrow> note)"

text \<open>
  \<open>weightedRandom(weights)\<close>, given the value \<open>r\<close> of its one \<open>Math.random()\<close> call.
  The loop subtracts each weight in turn; the fallback \<open>entries[0][0]\<close> throws on an
  empty object.
\<close>

fun weightedScan :: "rat \<Rightarrow> dist \<Rightarrow> string option" where
  "weightedScan random [] = None"
| "weightedScan random ((k, weight) # entries) =
     (let random' = random - weight
      in if random' \<le> 0 then Some k else weightedScan random' entries)"

definition weightedRandom :: "rat \<Rightarrow> dist \<Rightarrow> error + string" where
  "weightedRandom r weights =
     (let entries = weights;
          total = foldl (\<lambda>sum (k, w). sum + w) 0 entries;
          random = r * total
      in case weightedScan random entries of
           Some k \<Rightarrow> Inr k
         | None \<Rightarrow> (case entries of [] \<Rightarrow> Inl TypeError | (k, w) # _ \<Rightarrow> Inr k))"

section \<open>The probability shaper\<close>

definition adjustForAdventurousness :: "Engine \<Rightarrow> dist \<Rightarrow> dist" where
  "adjustForAdventurousness s transitions =
     (let adventure = adventurousness (settings s);
          entries = transitions;
          uniform = 1 / of_nat (length entries)
      in foldl (\<lambda>adjusted (degree, prob).
                  js_set adjusted degree (prob * (1 - adventure) + uniform * adventure))
           [] entries)"

text \<open>
  \<open>counts[d] = (counts[d] || 0) + 1\<close> over the window, \<open>counts\<close> being a plain
  object. A count is a number, or, for a degree that names a member of
  \<open>Object.prototype\<close>, the string that \<open>+ 1\<close> makes of the inherited function and of
  every string after it: \<open>None\<close>. (For \<open>__proto__\<close> the assignment is ignored and
  \<open>counts\<close> gets no entry; an entry without a number has the same effect below.)
\<close>

definition countStep :: "(string \<times> nat option) list \<Rightarrow> string \<Rightarrow> (string \<times> nat option) list" where
  "countStep counts d =
     js_set counts d
       (case js_get counts d of
          Own (Some c) \<Rightarrow> Some (c + 1)
        | Own None \<Rightarrow> None
        | Inherited \<Rightarrow> None
        | Missing \<Rightarrow> Some 1)"

definition countRecent :: "string list \<Rightarrow> (string \<times> nat option) list" where
  "countRecent recent = foldl countStep [] recent"

text \<open>
  One round of the penalty loop. A count that is not a number fails both comparisons.
  \<open>adjusted[degree]\<close> is tested for truthiness: an absent entry and a zero weight are
  both skipped (a degree with a numeric count names no inherited member, so the lookup
  is of own entries).
\<close>

definition penalize :: "dist \<Rightarrow> string \<times> nat option \<Rightarrow> dist" where
  "penalize adjusted e =
     (case e of (degree, count) \<Rightarrow>
        (case count of
           None \<Rightarrow> adjusted
         | Some c \<Rightarrow>
             (case map_of adjusted degree of
                None \<Rightarrow> adjusted
              | Some w \<Rightarrow>
                  if c \<ge> 3 \<and> w \<noteq> 0 then js_set adjusted degree (w * 0.3)
                  else if c \<ge> 2 \<and> w \<noteq> 0 then js_set adjusted degree (w * 0.7)
                  else adjusted)))"

definition applyAntiRepetition :: "Engine \<Rightarrow> dist \<Rightarrow> dist" where
  "applyAntiRepetition s transitions =
     (if length (recentDegrees s) < 3 then transitions
      else foldl penalize transitions (countRecent (recentDegrees s)))"

text \<open>
  The window update of \<open>generateBar\<close>: push, then drop the oldest entry once there are
  more than eight.
\<close>

definition pushRecent :: "string list \<Rightarrow> string \<Rightarrow> string list" where
  "pushRecent recent d = (let r = recent @ [d] in if length r > 8 then tl r else r)"

section \<open>Construction, reset and settings\<close>





text \<open>\<open>randomKey()\<close>, from draw number \<open>n\<close> on: the key and the next draw number.\<close>

definition randomKey :: "(nat \<Rightarrow> unit01) \<Rightarrow> nat \<Rightarrow> Key \<times> nat" where
  "randomKey rnd n =
     (let roots = [''C'', ''F'', ''Bb'', ''Eb'', ''Ab'', ''G'', ''D'', ''A''];
          modes = [''major'', ''major'', ''major'', ''minor'']
      in (\<lparr>key_root = roots ! nat \<lfloor>Rep_unit01 (rnd n) * of_nat (length roots)\<rfloor>,
           key_mode = modes ! nat \<lfloor>Rep_unit01 (rnd (Suc n)) * of_nat (length modes)\<rfloor>\<rparr>,
          Suc (Suc n)))"

text \<open>\<open>reset(startingKey = null)\<close>; \<open>None\<close> is the missing or \<open>null\<close> argument.\<close>

definition reset :: "(nat \<Rightarrow> unit01) \<Rightarrow> Engine \<Rightarrow> Key option \<Rightarrow> Engine" where
  "reset rnd s startingKey =
     (let (k, n) = (case startingKey of Some k \<Rightarrow> (k, draws s)
                                       | None \<Rightarrow> randomKey rnd (draws s))
      in s\<lparr>currentKey := k, currentDegree := ''I'', previousDegree := None, barCount := 0,
            history := [], recentDegrees := [], approachQueue := [], draws := n\<rparr>)"



text \<open>\<open>updateSettings\<close>: the properties present in the argument are copied over.\<close>

record SettingsUpdate =
  upd_keyStability :: "rat option"
  upd_adventurousness :: "rat option"
  upd_complexity :: "rat option"
  upd_twoChordProbability :: "rat option"

definition updateSettings :: "Engine \<Rightarrow> SettingsUpdate \<Rightarrow> Engine" where
  "updateSettings s u =
     s\<lparr>settings :=
         \<lparr>keyStability = (case upd_keyStability u of Some x \<Rightarrow> x | None \<Rightarrow> keyStability (settings s)),
          adventurousness = (case upd_adventurousness u of Some x \<Rightarrow> x
                             | None \<Rightarrow> adventurousness (settings s)),
          complexity = (case upd_complexity u of Some x \<Rightarrow> x | None \<Rightarrow> complexity (settings s)),
          twoChordProbability = (case upd_twoChordProbability u of Some x \<Rightarrow> x
                                 | None \<Rightarrow> twoChordProbability (settings s))\<rparr>\<rparr>"

definition getState :: "Engine \<Rightarrow> Key \<times> string \<times> nat" where
  "getState s = (currentKey s, currentDegree s, barCount s)"

section \<open>Key modulation\<close>

text \<open>
  The \<open>switch\<close> of \<open>modulate\<close>: the new key for a modulation type, \<open>None\<close> for the
  \<open>default\<close> branch. The index \<open>(currentRoot + k) % 12\<close> is within \<open>NOTES\<close> for every
  offset used, because \<open>indexOf\<close> is at least \<open>-1\<close>.
\<close>

definition modulationTarget :: "string \<Rightarrow> Key \<Rightarrow> Key option" where
  "modulationTarget type k =
     (let currentRoot = indexOf NOTES (normalizeNote (key_root k));
          note = (\<lambda>off. NOTES ! nat ((currentRoot + off) smod 12))
      in if type = ''fifth_up'' then Some \<lparr>key_root = note 7, key_mode = key_mode k\<rparr>
         else if type = ''fifth_down'' then Some \<lparr>key_root = note 5, key_mode = key_mode k\<rparr>
         else if type = ''relative'' then
           (if key_mode k = ''major'' then Some \<lparr>key_root = note 9, key_mode = ''minor''\<rparr>
            else Some \<lparr>key_root = note 3, key_mode = ''major''\<rparr>)
         else if type = ''parallel'' then
           Some \<lparr>key_root = key_root k,
                 key_mode = (if key_mode k = ''major'' then ''minor'' else ''major'')\<rparr>
         else if type = ''tritone'' then Some \<lparr>key_root = note 6, key_mode = key_mode k\<rparr>
         else if type = ''step_up'' then Some \<lparr>key_root = note 2, key_mode = key_mode k\<rparr>
         else if type = ''step_down'' then Some \<lparr>key_root = note 10, key_mode = key_mode k\<rparr>
         else None)"

definition modulate :: "(nat \<Rightarrow> unit01) \<Rightarrow> Engine \<Rightarrow> error + Engine" where
  "modulate rnd s =
     (let (r, s1) = Math_random rnd s
      in case weightedRandom r KEY_MODULATIONS of
           Inl e \<Rightarrow> Inl e
         | Inr type \<Rightarrow>
             (case modulationTarget type (currentKey s1) of
                None \<Rightarrow> Inr s1
              | Some k \<Rightarrow>
                  (let s2 = s1\<lparr>currentKey := k\<rparr>;
                       (r2, s3) = Math_random rnd s2
                   in Inr (if r2 < 0.6 then s3\<lparr>currentDegree := ''I''\<rparr> else s3))))"

definition maybeModulate :: "(nat \<Rightarrow> unit01) \<Rightarrow> Engine \<Rightarrow> error + Engine" where
  "maybeModulate rnd s =
     (let modulationChance = 1 - keyStability (settings s);
          postCadence = (currentDegree s = ''I'' \<or> currentDegree s = ''i'');
          effectiveChance = (if postCadence then modulationChance * 2 else modulationChance);
          (r, s1) = Math_random rnd s
      in if r < effectiveChance then modulate rnd s1 else Inr s1)"

section \<open>Degree transitions\<close>

text \<open>
  The lookups that \<open>getNextDegree\<close> (steps 3 and 4) and \<open>peekLikelyNextDegree\<close> both
  spell out. \<open>previousDegree\<close> is tested for truthiness: \<open>null\<close> and the empty string
  skip the override table. The key of the override table contains the separator, which
  is no ASCII character, so it names no inherited member: that lookup is of own entries.
\<close>

definition secondOrder :: "Engine \<Rightarrow> dist option" where
  "secondOrder s =
     (case previousDegree s of
        None \<Rightarrow> None
      | Some p \<Rightarrow>
          if p = [] then None
          else (let key = p @ arrow @ currentDegree s in map_of SECOND_ORDER_OVERRIDES key))"

text \<open>
  The \<open>||\<close> chain of step 4. Every value found is truthy, an inherited member too: the
  chain stops at it, and what \<open>getNextDegree\<close> spreads and \<open>getMostProbable\<close>
  enumerates is then an object without entries.
\<close>

definition firstOrder :: "Engine \<Rightarrow> dist" where
  "firstOrder s =
     (let isMinor = (key_mode (currentKey s) = ''minor'');
          table = (if isMinor then MINOR_DEGREE_TRANSITIONS else DEGREE_TRANSITIONS)
      in case js_get table (currentDegree s) of
           Own t \<Rightarrow> t
         | Inherited \<Rightarrow> []
         | Missing \<Rightarrow>
             (case js_get DEGREE_TRANSITIONS (currentDegree s) of
                Own t \<Rightarrow> t
              | Inherited \<Rightarrow> []
              | Missing \<Rightarrow> the (map_of DEGREE_TRANSITIONS ''I'')))"

text \<open>Steps 3 and 4: the raw distribution (the spread copies are the same lists).\<close>

definition rawTransitions :: "Engine \<Rightarrow> dist" where
  "rawTransitions s = (case secondOrder s of Some t \<Rightarrow> t | None \<Rightarrow> firstOrder s)"

definition tryStartApproach :: "(nat \<Rightarrow> unit01) \<Rightarrow> Engine \<Rightarrow> error + (bool \<times> Engine)" where
  "tryStartApproach rnd s =
     (let targets = APPROACH_SEQUENCES;
          weights = foldl (\<lambda>weights (target, sequence, weight).
                             if target \<noteq> currentDegree s then js_set weights target weight
                             else weights) [] targets
      in if length weights = 0 then Inr (False, s)
         else (let (r, s1) = Math_random rnd s
               in case weightedRandom r weights of
                    Inl e \<Rightarrow> Inl e
                  | Inr target \<Rightarrow>
                      (case map_of APPROACH_SEQUENCES target of
                         None \<Rightarrow> Inl TypeError
                       | Some (sequence, weight) \<Rightarrow>
                           Inr (True, s1\<lparr>approachQueue := sequence\<rparr>))))"

text \<open>Steps 5 to 7: shape the raw distribution and draw from it.\<close>

definition drawShaped :: "(nat \<Rightarrow> unit01) \<Rightarrow> Engine \<Rightarrow> dist \<Rightarrow> error + (string \<times> Engine)" where
  "drawShaped rnd s transitions =
     (let t1 = adjustForAdventurousness s transitions;
          t2 = applyAntiRepetition s t1;
          (r, s1) = Math_random rnd s
      in case weightedRandom r t2 of Inl e \<Rightarrow> Inl e | Inr d \<Rightarrow> Inr (d, s1))"

text \<open>
  \<open>getNextDegree()\<close>. After \<open>tryStartApproach\<close> has returned \<open>true\<close> the queue holds one
  of the three-chord sequences, so \<open>shift()\<close> has a head to return.
\<close>

definition getNextDegree :: "(nat \<Rightarrow> unit01) \<Rightarrow> Engine \<Rightarrow> error + (string \<times> Engine)" where
  "getNextDegree rnd s =
     (case approachQueue s of
        d # q \<Rightarrow> Inr (d, s\<lparr>approachQueue := q\<rparr>)
      | [] \<Rightarrow>
          (let (r, s1) = Math_random rnd s
           in if r < APPROACH_PROBABILITY then
                (case tryStartApproach rnd s1 of
                   Inl e \<Rightarrow> Inl e
                 | Inr (started, s2) \<Rightarrow>
                     if started
                     then Inr (hd (approachQueue s2), s2\<lparr>approachQueue := tl (approachQueue s2)\<rparr>)
                     else drawShaped rnd s2 (rawTransitions s2))
              else drawShaped rnd s1 (rawTransitions s1)))"

definition getMostProbable :: "dist \<Rightarrow> string" where
  "getMostProbable transitions =
     fst (foldl (\<lambda>(maxDegree, maxProb) (degree, prob).
                   if prob > maxProb then (degree, prob) else (maxDegree, maxProb))
            (''I'', 0) transitions)"

definition peekLikelyNextDegree :: "Engine \<Rightarrow> string" where
  "peekLikelyNextDegree s =
     (case secondOrder s of
        Some t \<Rightarrow> getMostProbable t
      | None \<Rightarrow> getMostProbable (firstOrder s))"

section \<open>Chord realization\<close>

definition getDegreeInterval :: "string \<Rightarrow> int" where
  "getDegreeInterval degree =
     (let normalized = map (\<lambda>c. if c = CHR ''i'' \<or> c = CHR ''v'' then upper_char c else c) degree
      in if take 1 normalized = ''#'' then
           (let base = (case map_of MAJOR_DEGREES (drop 1 normalized) of Some b \<Rightarrow> b | None \<Rightarrow> 0)
            in (base + 1) smod 12)
         else (case map_of MAJOR_DEGREES normalized of
                 Some n \<Rightarrow> n
               | None \<Rightarrow> (case map_of MAJOR_DEGREES (toUpperCase degree) of
                             Some n \<Rightarrow> n | None \<Rightarrow> 0)))"

text \<open>
  The classification chain of \<open>getChordQuality\<close>: the option list and the
  \<open>isDominantFunction\<close> flag.
\<close>

definition functionOptions :: "Engine \<Rightarrow> string \<Rightarrow> string list \<times> bool" where
  "functionOptions s degree =
     (let isMinorKey = (key_mode (currentKey s) = ''minor'');
          upperDegree = toUpperCase degree
      in if degree \<in> set [''II'', ''III'', ''VI'', ''#IV''] then (QUALITY_OPTIONS_dominant, True)
         else if degree = ''bII'' then ([''7'', ''7#11'', ''9'', ''13''], False)
         else if degree \<in> set [''bIII'', ''bVI'', ''bVII''] then ([''maj7'', ''7'', ''maj9''], False)
         else if degree = ''iv'' then (QUALITY_OPTIONS_minor, False)
         else if degree = ''vii'' \<or> (degree = ''ii'' \<and> isMinorKey) then (QUALITY_OPTIONS_halfDim, False)
         else if upperDegree = ''V'' then (QUALITY_OPTIONS_dominant, True)
         else if degree \<in> set [''ii'', ''iii'', ''vi'', ''v'']
                 \<or> (isMinorKey \<and> toLowerCase degree \<in> set [''i'', ''iv''])
           then (QUALITY_OPTIONS_minor, False)
         else if upperDegree = ''I''
           then (if isMinorKey then QUALITY_OPTIONS_minor else QUALITY_OPTIONS_tonic, False)
         else if upperDegree = ''IV'' then (QUALITY_OPTIONS_subdominant, False)
         else ([''7'', ''maj7'', ''m7''], False))"

text \<open>
  The option list after the context override. The hint is tested for truthiness:
  \<open>null\<close> and the empty string leave the list as classified.
\<close>

definition qualityOptions :: "Engine \<Rightarrow> string \<Rightarrow> string option \<Rightarrow> string list" where
  "qualityOptions s degree nextDegreeHint =
     (let isMinorKey = (key_mode (currentKey s) = ''minor'');
          (options, isDominantFunction) = functionOptions s degree
      in case nextDegreeHint of
           None \<Rightarrow> options
         | Some hint \<Rightarrow>
             if isDominantFunction \<and> hint \<noteq> [] then
               (let minorTargets = [''ii'', ''iii'', ''vi'', ''i'', ''iv'', ''v''];
                    resolvesToMinor = (hint \<in> set minorTargets \<or> (isMinorKey \<and> hint = ''I''))
                in if resolvesToMinor then QUALITY_OPTIONS_dominantToMinor
                   else QUALITY_OPTIONS_dominantToMajor)
             else options)"

text \<open>
  The magnitude from which a double product rounds to an infinity: the largest finite
  double plus half a unit in its last place.
\<close>

definition DOUBLE_OVERFLOW :: rat where
  "DOUBLE_OVERFLOW = of_int (2 ^ 1024 - 2 ^ 970)"

text \<open>
  The draw of \<open>getChordQuality\<close>. The exact arithmetic stands for the doubles as long
  as \<open>(options.length - 1) * complexity\<close> is finite, which it is for every complexity
  from 0 to 1. When the product overflows, \<open>maxIndex\<close> is an infinity:
  \<open>Math.random() * Infinity\<close> is \<open>NaN\<close> for the random number 0 and \<open>Infinity\<close>
  otherwise, \<open>Math.min\<close> keeps \<open>NaN\<close> and caps \<open>Infinity\<close> at the last index, and
  \<open>options[NaN]\<close> is \<open>undefined\<close>; with \<open>-Infinity\<close> no index is in the array.
\<close>

definition getChordQuality ::
  "(nat \<Rightarrow> unit01) \<Rightarrow> Engine \<Rightarrow> string \<Rightarrow> string option \<Rightarrow> string option \<times> Engine" where
  "getChordQuality rnd s degree nextDegreeHint =
     (let options = qualityOptions s degree nextDegreeHint;
          product = (of_nat (length options) - 1) * complexity (settings s);
          (r, s1) = Math_random rnd s
      in if DOUBLE_OVERFLOW \<le> product then
           (if r = 0 then None else js_nth options (int (length options) - 1), s1)
         else if product \<le> - DOUBLE_OVERFLOW then (None, s1)
         else (let maxIndex = \<lfloor>1 + product\<rfloor>;
                   index = \<lfloor>r * of_int maxIndex\<rfloor>
               in (js_nth options (min index (int (length options) - 1)), s1)))"

definition formatDegree :: "string \<Rightarrow> string" where
  "formatDegree degree =
     (let replacements =
            [(''bII'', flat @ ''II''), (''bIII'', flat @ ''III''), (''bVI'', flat @ ''VI''),
             (''bVII'', flat @ ''VII''), (''bV'', flat @ ''V''), (''#IV'', sharp @ ''IV'')]
      in case map_of replacements degree of Some r \<Rightarrow> r | None \<Rightarrow> degree)"

text \<open>The chain of \<open>replace\<close> calls of \<open>formatChordName\<close>, in the order of the source.\<close>

definition QUALITY_REPLACEMENTS :: "(string \<times> string) list" where
  "QUALITY_REPLACEMENTS =
     [(''maj7'', delta @ ''7''),
      (''maj9'', delta @ ''9''),
      (''m7b5'', oslash @ ''7''),
      (''dim7'', degree_sign @ ''7''),
      (''7alt'', ''7alt''),
      (''7#11'', ''7'' @ sharp @ ''11''),
      (''7b9'', ''7'' @ flat @ ''9''),
      (''7#9'', ''7'' @ sharp @ ''9''),
      (''m7'', ''-7''),
      (''m9'', ''-9''),
      (''m11'', ''-11''),
      (''m6'', ''-6''),
      (''m69'', ''-6/9''),
      (''69'', ''6/9'')]"

definition formatQuality :: "string \<Rightarrow> string" where
  "formatQuality quality = foldl (\<lambda>q (pat, rep). js_replace pat rep q) quality QUALITY_REPLACEMENTS"

text \<open>\<open>q.replace\<close> on an \<open>undefined\<close> quality throws.\<close>

definition formatChordName :: "string option \<Rightarrow> string option \<Rightarrow> error + ChordName" where
  "formatChordName chordRoot quality =
     (case quality of
        None \<Rightarrow> Inl TypeError
      | Some q \<Rightarrow> Inr \<lparr>name_root = chordRoot, name_quality = formatQuality q\<rparr>)"

text \<open>
  The replacement rules that find their pattern while the chain runs on a token, in
  order: the rules that are applied to it.
\<close>

fun rulesApplied :: "(string \<times> string) list \<Rightarrow> string \<Rightarrow> string list" where
  "rulesApplied [] q = []"
| "rulesApplied ((pat, rep) # rules) q =
     (if occurs pat q then pat # rulesApplied rules (js_replace pat rep q)
      else rulesApplied rules (js_replace pat rep q))"

definition realizeChord ::
  "(nat \<Rightarrow> unit01) \<Rightarrow> Engine \<Rightarrow> string \<Rightarrow> string option \<Rightarrow> error + (Chord \<times> Engine)" where
  "realizeChord rnd s degree nextDegreeHint =
     (let rootInterval = getDegreeInterval degree;
          keyRoot = indexOf NOTES (normalizeNote (key_root (currentKey s)));
          chordRoot = js_nth NOTES ((keyRoot + rootInterval) smod 12);
          (quality, s1) = getChordQuality rnd s degree nextDegreeHint;
          displayDegree = formatDegree degree
      in case formatChordName chordRoot quality of
           Inl e \<Rightarrow> Inl e
         | Inr name \<Rightarrow>
             (case quality of
                None \<Rightarrow> Inl TypeError
              | Some q \<Rightarrow>
                  Inr (\<lparr>chord_root = chordRoot, chord_quality = q, chord_degree = displayDegree,
                        fullName = name\<rparr>, s1)))"

section \<open>Bar generation\<close>

text \<open>One round of the degree loop of \<open>generateBar\<close>.\<close>

definition chordSlot :: "(nat \<Rightarrow> unit01) \<Rightarrow> Engine \<Rightarrow> error + (string \<times> Engine)" where
  "chordSlot rnd s =
     (case maybeModulate rnd s of
        Inl e \<Rightarrow> Inl e
      | Inr s1 \<Rightarrow>
          (case getNextDegree rnd s1 of
             Inl e \<Rightarrow> Inl e
           | Inr (nextDegree, s2) \<Rightarrow>
               Inr (nextDegree,
                    s2\<lparr>previousDegree := Some (currentDegree s2),
                       currentDegree := nextDegree,
                       recentDegrees := pushRecent (recentDegrees s2) nextDegree\<rparr>)))"

fun degreeLoop :: "(nat \<Rightarrow> unit01) \<Rightarrow> nat \<Rightarrow> Engine \<Rightarrow> error + (string list \<times> Engine)" where
  "degreeLoop rnd 0 s = Inr ([], s)"
| "degreeLoop rnd (Suc n) s =
     (case chordSlot rnd s of
        Inl e \<Rightarrow> Inl e
      | Inr (d, s1) \<Rightarrow>
          (case degreeLoop rnd n s1 of
             Inl e \<Rightarrow> Inl e
           | Inr (ds, s2) \<Rightarrow> Inr (d # ds, s2)))"

text \<open>
  Phase 2, \<open>degrees.map(...)\<close>: each chord is realized with the following degree as
  hint, the last one with the lookahead.
\<close>

fun realizeAll :: "(nat \<Rightarrow> unit01) \<Rightarrow> Engine \<Rightarrow> string list \<Rightarrow> error + (Chord list \<times> Engine)" where
  "realizeAll rnd s [] = Inr ([], s)"
| "realizeAll rnd s (degree # rest) =
     (let nextHint = (case rest of d # _ \<Rightarrow> d | [] \<Rightarrow> peekLikelyNextDegree s)
      in case realizeChord rnd s degree (Some nextHint) of
           Inl e \<Rightarrow> Inl e
         | Inr (c, s1) \<Rightarrow>
             (case realizeAll rnd s1 rest of
                Inl e \<Rightarrow> Inl e
              | Inr (cs, s2) \<Rightarrow> Inr (c # cs, s2)))"

definition generateBar :: "(nat \<Rightarrow> unit01) \<Rightarrow> Engine \<Rightarrow> error + (Bar \<times> Engine)" where
  "generateBar rnd s =
     (let s0 = s\<lparr>barCount := barCount s + 1\<rparr>;
          previousKey = currentKey s0;
          (r, s1) = Math_random rnd s0;
          hasTwoChords = (r < twoChordProbability (settings s1));
          count = (if hasTwoChords then 2 else 1)
      in case degreeLoop rnd count s1 of
           Inl e \<Rightarrow> Inl e
         | Inr (degrees, s2) \<Rightarrow>
             (case realizeAll rnd s2 degrees of
                Inl e \<Rightarrow> Inl e
              | Inr (cs, s3) \<Rightarrow>
                  (let changed = (key_root previousKey \<noteq> key_root (currentKey s3)
                                  \<or> key_mode previousKey \<noteq> key_mode (currentKey s3));
                       bar = \<lparr>barNumber = barCount s3, chords = cs, bar_key = currentKey s3,
                              keyChanged = changed\<rparr>
                   in Inr (bar, s3\<lparr>history := history s3 @ [bar]\<rparr>))))"

text \<open>\<open>n\<close> consecutive calls of \<open>generateBar\<close>, with the bars they return.\<close>

fun generateBars :: "(nat \<Rightarrow> unit01) \<Rightarrow> nat \<Rightarrow> Engine \<Rightarrow> error + (Bar list \<times> Engine)" where
  "generateBars rnd 0 s = Inr ([], s)"
| "generateBars rnd (Suc n) s =
     (case generateBar rnd s of
        Inl e \<Rightarrow> Inl e
      | Inr (bar, s1) \<Rightarrow>
          (case generateBars rnd n s1 of
             Inl e \<Rightarrow> Inl e
           | Inr (bars, s2) \<Rightarrow> Inr (bar # bars, s2)))"

text \<open>\<open>n\<close> consecutive calls of \<open>getNextDegree\<close>, with the degrees they return.\<close>

fun getNextDegrees :: "(nat \<Rightarrow> unit01) \<Rightarrow> nat \<Rightarrow> Engine \<Rightarrow> error + (string list \<times> Engine)" where
  "getNextDegrees rnd 0 s = Inr ([], s)"
| "getNextDegrees rnd (Suc n) s =
     (case getNextDegree rnd s of
        Inl e \<Rightarrow> Inl e
      | Inr (d, s1) \<Rightarrow>
          (case getNextDegrees rnd n s1 of
             Inl e \<Rightarrow> Inl e
           | Inr (ds, s2) \<Rightarrow> Inr (d # ds, s2)))"

section \<open>The transition rule in the words of the specification\<close>

text \<open>
  The override table keyed by the ordered pair (previous degree, current degree), with
  the distributions of \<open>SECOND_ORDER_OVERRIDES\<close> in the same order.
\<close>

definition OVERRIDE_PAIRS :: "(string \<times> string) list" where
  "OVERRIDE_PAIRS =
     [(''ii'', ''V''), (''iii'', ''vi''), (''vi'', ''ii''), (''II'', ''V''), (''VI'', ''ii''),
      (''III'', ''vi''), (''IV'', ''V''), (''bVI'', ''bVII''), (''iv'', ''V'')]"

definition overrideEntry :: "string \<Rightarrow> string \<Rightarrow> dist option" where
  "overrideEntry p c = map_of (zip OVERRIDE_PAIRS (map snd SECOND_ORDER_OVERRIDES)) (p, c)"

text \<open>
  The raw distribution as the specification words it: the override entry of the pair if
  there is one; otherwise the entry of the current degree in the table of the mode, else
  in the major table, else the major table's entry for \<open>I\<close>.
\<close>

definition spec_rawDistribution :: "string option \<Rightarrow> string \<Rightarrow> string \<Rightarrow> dist" where
  "spec_rawDistribution prev cur mode =
     (case (case prev of None \<Rightarrow> None | Some p \<Rightarrow> overrideEntry p cur) of
        Some d \<Rightarrow> d
      | None \<Rightarrow>
          (case map_of (if mode = ''minor'' then MINOR_DEGREE_TRANSITIONS else DEGREE_TRANSITIONS) cur of
             Some d \<Rightarrow> d
           | None \<Rightarrow>
               (case map_of DEGREE_TRANSITIONS cur of
                  Some d \<Rightarrow> d
                | None \<Rightarrow>
                    [(''ii'', 0.22), (''IV'', 0.18), (''V'', 0.12), (''vi'', 0.15), (''iii'', 0.10),
                     (''bVII'', 0.05), (''bIII'', 0.04), (''bVI'', 0.04), (''II'', 0.05),
                     (''I'', 0.05)])))"

section \<open>The quality vocabulary of the realizer\<close>

text \<open>Every option list that \<open>getChordQuality\<close> can index.\<close>

definition realizerOptionLists :: "string list list" where
  "realizerOptionLists =
     [QUALITY_OPTIONS_dominant, [''7'', ''7#11'', ''9'', ''13''], [''maj7'', ''7'', ''maj9''],
      QUALITY_OPTIONS_minor, QUALITY_OPTIONS_halfDim, QUALITY_OPTIONS_tonic,
      QUALITY_OPTIONS_subdominant, [''7'', ''maj7'', ''m7''],
      QUALITY_OPTIONS_dominantToMinor, QUALITY_OPTIONS_dominantToMajor]"

definition qualityVocabulary :: "string list" where
  "qualityVocabulary =
     [''maj7'', ''maj9'', ''6'', ''69'', ''maj7#11'', ''7'', ''m7'', ''9'', ''13'', ''7#11'',
      ''7alt'', ''7b9'', ''7#9'', ''sus4'', ''m9'', ''m11'', ''m6'', ''m69'', ''m7b5'',
      oslash @ ''7'']"

section \<open>The shaper and the lookahead on a store of objects\<close>

text \<open>
  To state what is and is not mutated, the distribution objects live in a store: the
  list of the objects allocated so far, a reference being an index. An object literal
  and a spread copy allocate a new object; \<open>adjusted[degree] = v\<close> writes to the
  object that \<open>adjusted\<close> refers to.
\<close>

type_synonym store = "dist list"

definition alloc :: "store \<Rightarrow> dist \<Rightarrow> nat \<times> store" where
  "alloc h obj = (length h, h @ [obj])"

definition store_adjustForAdventurousness :: "Engine \<Rightarrow> store \<Rightarrow> nat \<Rightarrow> nat \<times> store" where
  "store_adjustForAdventurousness s h transitions =
     (let adventure = adventurousness (settings s);
          (adjusted, h1) = alloc h [];
          entries = h1 ! transitions;
          uniform = 1 / of_nat (length entries);
          h2 = foldl (\<lambda>h' (degree, prob).
                        h'[adjusted := js_set (h' ! adjusted) degree
                                         (prob * (1 - adventure) + uniform * adventure)])
                 h1 entries
      in (adjusted, h2))"

definition store_applyAntiRepetition :: "Engine \<Rightarrow> store \<Rightarrow> nat \<Rightarrow> nat \<times> store" where
  "store_applyAntiRepetition s h transitions =
     (if length (recentDegrees s) < 3 then (transitions, h)
      else (let (adjusted, h1) = alloc h (h ! transitions);
                counts = countRecent (recentDegrees s);
                h2 = foldl (\<lambda>h' e. h'[adjusted := penalize (h' ! adjusted) e]) h1 counts
            in (adjusted, h2)))"

text \<open>
  The static tables as objects of the store: the distributions of the major table, then
  those of the minor table, then the overrides; each table maps its keys to references.
  The last cell stands for the members of \<open>Object.prototype\<close>, objects without
  enumerable entries; \<open>INHERITED_REF\<close> refers to it.
\<close>

definition STATIC_STORE :: store where
  "STATIC_STORE =
     map snd DEGREE_TRANSITIONS @ map snd MINOR_DEGREE_TRANSITIONS @ map snd SECOND_ORDER_OVERRIDES
       @ [[]]"

definition INHERITED_REF :: nat where
  "INHERITED_REF =
     length DEGREE_TRANSITIONS + length MINOR_DEGREE_TRANSITIONS + length SECOND_ORDER_OVERRIDES"

definition refs_from :: "nat \<Rightarrow> (string \<times> dist) list \<Rightarrow> (string \<times> nat) list" where
  "refs_from base tbl = zip (map fst tbl) [base ..< base + length tbl]"

definition DEGREE_TRANSITIONS_refs :: "(string \<times> nat) list" where
  "DEGREE_TRANSITIONS_refs = refs_from 0 DEGREE_TRANSITIONS"

definition MINOR_DEGREE_TRANSITIONS_refs :: "(string \<times> nat) list" where
  "MINOR_DEGREE_TRANSITIONS_refs = refs_from (length DEGREE_TRANSITIONS) MINOR_DEGREE_TRANSITIONS"

definition SECOND_ORDER_OVERRIDES_refs :: "(string \<times> nat) list" where
  "SECOND_ORDER_OVERRIDES_refs =
     refs_from (length DEGREE_TRANSITIONS + length MINOR_DEGREE_TRANSITIONS) SECOND_ORDER_OVERRIDES"

definition store_secondOrder :: "Engine \<Rightarrow> nat option" where
  "store_secondOrder s =
     (case previousDegree s of
        None \<Rightarrow> None
      | Some p \<Rightarrow>
          if p = [] then None
          else (let key = p @ arrow @ currentDegree s in map_of SECOND_ORDER_OVERRIDES_refs key))"

definition store_firstOrder :: "Engine \<Rightarrow> nat" where
  "store_firstOrder s =
     (let isMinor = (key_mode (currentKey s) = ''minor'');
          table = (if isMinor then MINOR_DEGREE_TRANSITIONS_refs else DEGREE_TRANSITIONS_refs)
      in case js_get table (currentDegree s) of
           Own t \<Rightarrow> t
         | Inherited \<Rightarrow> INHERITED_REF
         | Missing \<Rightarrow>
             (case js_get DEGREE_TRANSITIONS_refs (currentDegree s) of
                Own t \<Rightarrow> t
              | Inherited \<Rightarrow> INHERITED_REF
              | Missing \<Rightarrow> the (map_of DEGREE_TRANSITIONS_refs ''I'')))"

text \<open>
  Steps 3 to 6 of \<open>getNextDegree\<close>: the spread copy of the table entry, then the two
  passes. The result is the reference of the shaped distribution.
\<close>

definition store_shapedTransitions :: "Engine \<Rightarrow> store \<Rightarrow> nat \<times> store" where
  "store_shapedTransitions s h =
     (let (transitions, h1) = (case store_secondOrder s of
                                 Some r \<Rightarrow> alloc h (h ! r)
                               | None \<Rightarrow> alloc h (h ! store_firstOrder s));
          (t1, h2) = store_adjustForAdventurousness s h1 transitions
      in store_applyAntiRepetition s h2 t1)"

text \<open>
  \<open>peekLikelyNextDegree\<close> as a step on engine and store: it passes the table entry
  itself to \<open>getMostProbable\<close>, which only reads it; there is no assignment.
\<close>

definition store_peekLikelyNextDegree :: "Engine \<times> store \<Rightarrow> string \<times> Engine \<times> store" where
  "store_peekLikelyNextDegree w =
     (case w of (s, h) \<Rightarrow>
        (case store_secondOrder s of
           Some r \<Rightarrow> (getMostProbable (h ! r), s, h)
         | None \<Rightarrow> (getMostProbable (h ! store_firstOrder s), s, h)))"

section \<open>Example states\<close>

definition defaultSettings :: Settings where
  "defaultSettings =
     \<lparr>keyStability = 0.85, adventurousness = 0.30, complexity = 0.50, twoChordProbability = 0.15\<rparr>"

definition C_major :: Key where
  "C_major = \<lparr>key_root = ''C'', key_mode = ''major''\<rparr>"

text \<open>The engine after \<open>reset({ root: 'C', mode: 'major' })\<close> with the default settings.\<close>

definition engineInC :: Engine where
  "engineInC =
     \<lparr>settings = defaultSettings, currentKey = C_major, currentDegree = ''I'',
      previousDegree = None, barCount = 0, history = [], recentDegrees = [],
      approachQueue = [], draws = 0\<rparr>"

text \<open>The same engine later in a piece, on \<open>V\<close> after \<open>ii\<close>, with a full window.\<close>

definition windowFull :: Engine where
  "windowFull =
     engineInC\<lparr>currentDegree := ''V'', previousDegree := Some ''ii'',
               recentDegrees := [''I'', ''vi'', ''ii'', ''V'', ''I'', ''IV'', ''ii'', ''V'']\<rparr>"

text \<open>A source of random numbers that always yields the same value.\<close>

definition always :: "rat \<Rightarrow> nat \<Rightarrow> unit01" where
  "always r n = u01 r"

section \<open>Auxiliary notions for the proofs\<close>

text \<open>
  The number that a \<open>counts\<close> object holds for a degree, 0 when it has no entry or
  holds no number.
\<close>

definition counted :: "(string \<times> nat option) list \<Rightarrow> string \<Rightarrow> nat" where
  "counted counts d = (case map_of counts d of Some (Some c) \<Rightarrow> c | _ \<Rightarrow> 0)"

text \<open>
  The distributions of the three static tables: every object that step 3 or step 4 of
  \<open>getNextDegree\<close> can find as an own entry.
\<close>

definition tableRows :: "dist list" where
  "tableRows =
     map snd DEGREE_TRANSITIONS @ map snd MINOR_DEGREE_TRANSITIONS @ map snd SECOND_ORDER_OVERRIDES"

text \<open>The factor of the anti-repetition pass as a function of the count.\<close>

definition penalty :: "nat \<Rightarrow> rat \<Rightarrow> rat" where
  "penalty c w = (if c \<ge> 3 then w * 0.3 else if c \<ge> 2 then w * 0.7 else w)"

text \<open>
  The option list that the specification names for a dominant-function chord with a
  hint: the darker list for a minor-leaning target, or for \<open>I\<close> in a minor key; the
  brighter list otherwise.
\<close>

definition spec_dominantOptions :: "string \<Rightarrow> string \<Rightarrow> string list" where
  "spec_dominantOptions mode hint =
     (if hint \<in> set [''ii'', ''iii'', ''vi'', ''i'', ''iv'', ''v''] \<or> (hint = ''I'' \<and> mode = ''minor'')
      then QUALITY_OPTIONS_dominantToMinor else QUALITY_OPTIONS_dominantToMajor)"

section \<open>Objects as association lists\<close>


lemma map_fst_js_set:
  "map fst (js_set obj k v) = (if k \<in> set (map fst obj) then map fst obj else map fst obj @ [k])"
  by (auto simp: js_set_def split_def)

lemma distinct_js_set: "distinct (map fst obj) \<Longrightarrow> distinct (map fst (js_set obj k v))"
  by (simp add: map_fst_js_set)

lemma map_of_overwrite:
  "map_of (map (\<lambda>(a, b). if a = k then (a, v) else (a, b)) xs) k'
     = (if k' = k then (if k \<in> fst ` set xs then Some v else None) else map_of xs k')"
proof (induction xs)
  case Nil
  then show ?case by simp
next
  case (Cons x xs)
  obtain a b where x: "x = (a, b)" by (cases x)
  show ?case using Cons.IH by (auto simp: x split: if_splits)
qed

lemma map_of_js_set: "map_of (js_set obj k v) k' = (if k' = k then Some v else map_of obj k')"
proof (cases "k \<in> set (map fst obj)")
  case True
  then show ?thesis by (simp add: js_set_def map_of_overwrite)
next
  case False
  then have "map_of obj k = None" by (simp add: map_of_eq_None_iff)
  with False show ?thesis by (simp add: js_set_def map_add_def split: option.splits)
qed

lemma countStep_value:
  assumes "\<And>k v. map_of acc k = Some v \<Longrightarrow> (v = None) = (k \<in> set OBJECT_PROTOTYPE)"
  shows "map_of (countStep acc d) k
           = (if k = d then (if d \<in> set OBJECT_PROTOTYPE then Some None
                             else Some (Some (counted acc d + 1)))
              else map_of acc k)"
proof (cases "map_of acc d")
  case None
  then show ?thesis
    by (simp add: countStep_def map_of_js_set js_get_def counted_def)
next
  case (Some v)
  show ?thesis
  proof (cases v)
    case None
    with Some assms [of d v] show ?thesis
      by (simp add: countStep_def map_of_js_set js_get_def)
  next
    case (Some c)
    with \<open>map_of acc d = Some v\<close> assms [of d v] show ?thesis
      by (simp add: countStep_def map_of_js_set js_get_def counted_def)
  qed
qed

lemma countRecent_foldl:
  assumes "distinct (map fst acc)"
    and "\<And>k v. map_of acc k = Some v \<Longrightarrow> (v = None) = (k \<in> set OBJECT_PROTOTYPE)"
  shows "distinct (map fst (foldl countStep acc ds))
       \<and> (\<forall>k. map_of (foldl countStep acc ds) k
                = (if k \<in> set ds
                   then (if k \<in> set OBJECT_PROTOTYPE then Some None
                         else Some (Some (counted acc k + count_list ds k)))
                   else map_of acc k))"
  using assms
proof (induction ds arbitrary: acc)
  case Nil
  then show ?case by simp
next
  case (Cons d ds)
  let ?acc = "countStep acc d"
  note cv = countStep_value [of acc, OF Cons.prems(2)]
  have d: "distinct (map fst ?acc)"
    unfolding countStep_def using Cons.prems(1) by (rule distinct_js_set)
  have inv: "(v = None) = (k \<in> set OBJECT_PROTOTYPE)" if "map_of ?acc k = Some v" for k v
    using that Cons.prems(2) [of k v] by (auto simp: cv split: if_splits)
  have zero: "counted acc k = 0" if "k \<in> set OBJECT_PROTOTYPE" for k
    using that Cons.prems(2) [of k] by (auto simp: counted_def split: option.splits)
  have c: "counted ?acc k = (if k = d then counted acc d + 1 else counted acc k)"
    if "k \<notin> set OBJECT_PROTOTYPE" for k
    using that by (auto simp: counted_def cv)
  have keep: "map_of ?acc k = map_of acc k" if "k \<noteq> d" for k
    using that by (simp add: cv)
  have here: "map_of ?acc d = (if d \<in> set OBJECT_PROTOTYPE then Some None
                              else Some (Some (counted acc d + 1)))"
    by (simp add: cv)
  from Cons.IH [OF d inv]
  have dist: "distinct (map fst (foldl countStep ?acc ds))"
    and ih: "map_of (foldl countStep ?acc ds) k
            = (if k \<in> set ds
               then (if k \<in> set OBJECT_PROTOTYPE then Some None
                     else Some (Some (counted ?acc k + count_list ds k)))
               else map_of ?acc k)" for k
    by blast+
  have "map_of (foldl countStep acc (d # ds)) k
          = (if k \<in> set (d # ds)
             then (if k \<in> set OBJECT_PROTOTYPE then Some None
                   else Some (Some (counted acc k + count_list (d # ds) k)))
             else map_of acc k)" for k
  proof (cases "k \<in> set OBJECT_PROTOTYPE")
    case True
    with here keep [of k] show ?thesis by (auto simp: ih)
  next
    case False
    with here keep [of k] c [OF False] show ?thesis by (auto simp: ih)
  qed
  with dist show ?case by simp
qed

lemma countRecent_distinct: "distinct (map fst (countRecent recent))"
  using countRecent_foldl [of "[]" recent] by (simp add: countRecent_def)

lemma map_of_countRecent:
  "map_of (countRecent recent) k
     = (if k \<in> set recent
        then (if k \<in> set OBJECT_PROTOTYPE then Some None else Some (Some (count_list recent k)))
        else None)"
  using countRecent_foldl [of "[]" recent] by (simp add: countRecent_def counted_def)

lemma penalize_skip: "penalize t (d, None) = t"
  by (simp add: penalize_def)

lemma penalize_map:
  assumes "distinct (map fst t)"
  shows "penalize t (d, Some c) = map (\<lambda>(k, w). if k = d then (k, penalty c w) else (k, w)) t"
proof (cases "map_of t d")
  case None
  then have "d \<notin> fst ` set t" by (simp add: map_of_eq_None_iff)
  then have "map (\<lambda>(k, w). if k = d then (k, penalty c w) else (k, w)) t = t"
    by (induction t) auto
  with None show ?thesis by (simp add: penalize_def)
next
  case (Some w)
  have uniq: "w' = w" if "(d, w') \<in> set t" for w'
    using map_of_is_SomeI [OF assms that] Some by simp
  have same: "map (\<lambda>(k, w'). if k = d then (k, v) else (k, w')) t
        = map (\<lambda>(k, w'). if k = d then (k, penalty c w') else (k, w')) t" if "penalty c w = v" for v
    using uniq that by (intro map_cong) auto
  have unchanged: "map (\<lambda>(k, w'). if k = d then (k, penalty c w') else (k, w')) t = t"
    if "penalty c w = w"
  proof -
    have "map (\<lambda>(k, w'). if k = d then (k, penalty c w') else (k, w')) t = map (\<lambda>x. x) t"
      using uniq that by (intro map_cong) auto
    then show ?thesis by simp
  qed
  from Some have mem: "d \<in> set (map fst t)"
    by (metis map_of_eq_None_iff option.distinct(1) set_map)
  have js: "js_set t d v = map (\<lambda>(k, w'). if k = d then (k, v) else (k, w')) t" for v
    using mem by (simp add: js_set_def)
  show ?thesis
  proof (cases "c \<ge> 3 \<and> w \<noteq> 0")
    case True
    have "penalize t (d, Some c) = js_set t d (w * 0.3)"
      using True Some by (simp add: penalize_def)
    also have "\<dots> = map (\<lambda>(k, w'). if k = d then (k, w * 0.3) else (k, w')) t"
      by (rule js)
    also have "\<dots> = map (\<lambda>(k, w'). if k = d then (k, penalty c w') else (k, w')) t"
      by (rule same) (use True in \<open>simp add: penalty_def\<close>)
    finally show ?thesis .
  next
    case False
    note F1 = this
    show ?thesis
    proof (cases "c \<ge> 2 \<and> w \<noteq> 0")
      case True
      have "penalize t (d, Some c) = js_set t d (w * 0.7)"
        using True F1 Some by (simp add: penalize_def)
      also have "\<dots> = map (\<lambda>(k, w'). if k = d then (k, w * 0.7) else (k, w')) t"
        by (rule js)
      also have "\<dots> = map (\<lambda>(k, w'). if k = d then (k, penalty c w') else (k, w')) t"
        by (rule same) (use True F1 in \<open>simp add: penalty_def\<close>)
      finally show ?thesis .
    next
      case False
      with F1 have "penalty c w = w" by (auto simp: penalty_def)
      from unchanged [OF this] False F1 Some show ?thesis
        by (auto simp: penalize_def)
    qed
  qed
qed

lemma foldl_penalize:
  "distinct (map fst t) \<Longrightarrow> distinct (map fst cs) \<Longrightarrow>
   foldl penalize t cs
     = map (\<lambda>(k, w). (k, case map_of cs k of Some (Some c) \<Rightarrow> penalty c w | _ \<Rightarrow> w)) t"
proof (induction cs arbitrary: t)
  case Nil
  then show ?case by simp
next
  case (Cons e cs)
  obtain d c where e: "e = (d, c)" by (cases e)
  from Cons.prems have fresh: "map_of cs d = None"
    by (simp add: e map_of_eq_None_iff)
  show ?case
  proof (cases c)
    case None
    have "foldl penalize t (e # cs) = foldl penalize t cs"
      by (simp add: e None penalize_skip)
    also have "\<dots> = map (\<lambda>(k, w). (k, case map_of cs k of Some (Some c) \<Rightarrow> penalty c w | _ \<Rightarrow> w)) t"
      using Cons.prems by (intro Cons.IH) simp_all
    also have "\<dots> = map (\<lambda>(k, w). (k, case map_of (e # cs) k of Some (Some c) \<Rightarrow> penalty c w | _ \<Rightarrow> w)) t"
      by (auto simp: e None fresh)
    finally show ?thesis .
  next
    case (Some n)
    let ?t = "map (\<lambda>(k, w). if k = d then (k, penalty n w) else (k, w)) t"
    have keys: "map fst ?t = map fst t" by (induction t) auto
    have "foldl penalize t (e # cs) = foldl penalize ?t cs"
      by (simp add: e Some penalize_map [OF Cons.prems(1)])
    also have "\<dots> = map (\<lambda>(k, w). (k, case map_of cs k of Some (Some c) \<Rightarrow> penalty c w | _ \<Rightarrow> w)) ?t"
    proof (rule Cons.IH)
      show "distinct (map fst ?t)" unfolding keys by (rule Cons.prems(1))
      show "distinct (map fst cs)" using Cons.prems(2) by simp
    qed
    also have "\<dots> = map (\<lambda>(k, w). (k, case map_of (e # cs) k of Some (Some c) \<Rightarrow> penalty c w | _ \<Rightarrow> w)) t"
      by (auto simp: e Some fresh)
    finally show ?thesis .
  qed
qed

lemma applyAntiRepetition_map:
  assumes "distinct (map fst t)"
  shows "applyAntiRepetition s t =
           (if length (recentDegrees s) < 3 then t
            else map (\<lambda>(k, w). (k, if k \<in> set OBJECT_PROTOTYPE then w
                                    else penalty (count_list (recentDegrees s) k) w)) t)"
proof -
  have "(case map_of (countRecent r) k of Some (Some c) \<Rightarrow> penalty c w | _ \<Rightarrow> w)
          = (if k \<in> set OBJECT_PROTOTYPE then w else penalty (count_list r k) w)" for r k w
    by (auto simp: map_of_countRecent penalty_def count_list_0_iff)
  then show ?thesis
    by (simp add: applyAntiRepetition_def foldl_penalize [OF assms countRecent_distinct])
qed

lemma pushRecent_step:
  "length r < 8 \<Longrightarrow> pushRecent r d = r @ [d]"
  "length (a # r) = 8 \<Longrightarrow> pushRecent (a # r) d = r @ [d]"
  by (simp_all add: pushRecent_def Let_def)

lemma pushRecent_foldl:
  "length acc \<le> 8 \<Longrightarrow> foldl pushRecent acc ds = drop (length (acc @ ds) - 8) (acc @ ds)"
proof (induction ds arbitrary: acc)
  case Nil
  then show ?case by simp
next
  case (Cons d ds)
  show ?case
  proof (cases "length acc < 8")
    case True
    then have "length (acc @ [d]) \<le> 8" by simp
    from Cons.IH [OF this] True show ?thesis by (simp add: pushRecent_step)
  next
    case False
    with Cons.prems have len: "length acc = 8" by simp
    then obtain a r where acc: "acc = a # r" by (cases acc) auto
    with len have r: "length (r @ [d]) \<le> 8" by simp
    from Cons.IH [OF r] len show ?thesis
      by (simp add: acc pushRecent_step Suc_diff_le)
  qed
qed

lemma pushRecent_window: "foldl pushRecent [] ds = drop (length ds - 8) ds"
  using pushRecent_foldl [of "[]" ds] by simp




section \<open>The adventurousness pass: the claims\<close>



section \<open>Key modulation: the claims\<close>

lemma indexOf_ge: "- 1 \<le> indexOf xs x"
  by (induction xs) (auto simp: Let_def)

lemma indexOf_nth:
  "distinct xs \<Longrightarrow> i < length xs \<Longrightarrow> indexOf xs (xs ! i) = int i"
proof (induction xs arbitrary: i)
  case Nil
  then show ?case by simp
next
  case (Cons y ys)
  show ?case
  proof (cases i)
    case 0
    then show ?thesis by simp
  next
    case (Suc j)
    with Cons.prems have j: "j < length ys" and ne: "y \<noteq> ys ! j" by auto
    from Cons.IH [OF _ j] Cons.prems have "indexOf ys (ys ! j) = int j" by simp
    with Suc ne show ?thesis by (simp add: Let_def)
  qed
qed

lemma smod_nonneg: "0 \<le> a \<Longrightarrow> a smod 12 = a mod (12 :: int)"
  by (cases "a = 0") (simp_all add: signed_modulo_int_def)

lemma NOTES_distinct: "distinct NOTES" and NOTES_length: "length NOTES = 12"
  by (simp_all add: NOTES_def)

lemma note_index_in_range:
  assumes "1 \<le> off"
  shows "0 \<le> (indexOf NOTES x + off) smod 12 \<and> (indexOf NOTES x + off) smod 12 < int (length NOTES)"
proof -
  from assms indexOf_ge [of NOTES x] have "0 \<le> indexOf NOTES x + off" by linarith
  then show ?thesis by (simp add: smod_nonneg NOTES_length)
qed

lemma note_of_index:
  assumes "i < 12" and "normalizeNote r = NOTES ! i"
  shows "NOTES ! nat ((indexOf NOTES (normalizeNote r) + int off) smod 12) = NOTES ! ((i + off) mod 12)"
proof -
  have "indexOf NOTES (normalizeNote r) = int i"
    using assms indexOf_nth [OF NOTES_distinct, of i] by (simp add: NOTES_length)
  moreover have "nat ((int i + int off) smod 12) = (i + off) mod 12"
    by (simp add: smod_nonneg nat_mod_distrib nat_add_distrib)
  ultimately show ?thesis by simp
qed

lemma weightedScan_key: "weightedScan r ws = Some k \<Longrightarrow> k \<in> fst ` set ws"
  by (induction r ws rule: weightedScan.induct) (auto simp: Let_def split: if_splits)

lemma weightedRandom_key:
  assumes "weightedRandom r ws = Inr k"
  shows "k \<in> fst ` set ws"
proof (cases "weightedScan (r * foldl (\<lambda>sum (k, w). sum + w) 0 ws) ws")
  case None
  with assms show ?thesis
    by (cases ws) (auto simp: weightedRandom_def Let_def simp del: weightedScan.simps)
next
  case (Some k')
  with assms have "k' = k"
    by (simp add: weightedRandom_def Let_def del: weightedScan.simps)
  with Some show ?thesis by (auto dest: weightedScan_key)
qed

lemma weightedRandom_total:
  assumes "ws \<noteq> []"
  shows "\<exists>k. weightedRandom r ws = Inr k"
proof (cases "weightedScan (r * foldl (\<lambda>sum (k, w). sum + w) 0 ws) ws")
  case None
  with assms show ?thesis
    by (cases ws) (auto simp: weightedRandom_def Let_def simp del: weightedScan.simps)
next
  case (Some k')
  then show ?thesis
    by (simp add: weightedRandom_def Let_def del: weightedScan.simps)
qed

lemma modulationTarget_defined:
  "type \<in> fst ` set KEY_MODULATIONS \<Longrightarrow> \<exists>k'. modulationTarget type k = Some k'"
  by (auto simp: KEY_MODULATIONS_def modulationTarget_def Let_def)

lemma modulate_key:
  "\<exists>type s'. weightedRandom (Rep_unit01 (rnd (draws s))) KEY_MODULATIONS = Inr type
      \<and> modulate rnd s = Inr s'
      \<and> modulationTarget type (currentKey s) = Some (currentKey s')"
proof -
  have "KEY_MODULATIONS \<noteq> []" by (simp add: KEY_MODULATIONS_def)
  from weightedRandom_total [OF this]
  obtain type where t: "weightedRandom (Rep_unit01 (rnd (draws s))) KEY_MODULATIONS = Inr type"
    by blast
  from modulationTarget_defined [OF weightedRandom_key [OF t]]
  obtain k' where k': "modulationTarget type (currentKey s) = Some k'" by blast
  show ?thesis
    using t k' by (simp add: modulate_def Math_random_def Let_def)
qed

text \<open>
  C5. For a key whose root is a note name (the note at index \<open>i\<close> of \<open>NOTES\<close> once
  normalized), \<open>modulate\<close> computes the new key by the chosen type: the root moves by
  +7 (fifth up), +5 (fifth down), +6 (tritone), +2 (step up) or +10 (step down)
  semitones modulo 12 with the mode kept; relative moves by +9 from major to minor and
  by +3 from minor to major; parallel keeps the root and flips the mode. The type is the
  one that the weighted draw over \<open>KEY_MODULATIONS\<close> returns, and \<open>modulate\<close> commits
  the key computed for it.
\<close>

theorem modulate_root_arithmetic:
  assumes "i < 12" and "normalizeNote (key_root k) = NOTES ! i"
  shows "modulationTarget ''fifth_up'' k
           = Some \<lparr>key_root = NOTES ! ((i + 7) mod 12), key_mode = key_mode k\<rparr>
       \<and> modulationTarget ''fifth_down'' k
           = Some \<lparr>key_root = NOTES ! ((i + 5) mod 12), key_mode = key_mode k\<rparr>
       \<and> modulationTarget ''relative'' (k\<lparr>key_mode := ''major''\<rparr>)
           = Some \<lparr>key_root = NOTES ! ((i + 9) mod 12), key_mode = ''minor''\<rparr>
       \<and> modulationTarget ''relative'' (k\<lparr>key_mode := ''minor''\<rparr>)
           = Some \<lparr>key_root = NOTES ! ((i + 3) mod 12), key_mode = ''major''\<rparr>
       \<and> modulationTarget ''parallel'' (k\<lparr>key_mode := ''major''\<rparr>)
           = Some \<lparr>key_root = key_root k, key_mode = ''minor''\<rparr>
       \<and> modulationTarget ''parallel'' (k\<lparr>key_mode := ''minor''\<rparr>)
           = Some \<lparr>key_root = key_root k, key_mode = ''major''\<rparr>
       \<and> modulationTarget ''tritone'' k
           = Some \<lparr>key_root = NOTES ! ((i + 6) mod 12), key_mode = key_mode k\<rparr>
       \<and> modulationTarget ''step_up'' k
           = Some \<lparr>key_root = NOTES ! ((i + 2) mod 12), key_mode = key_mode k\<rparr>
       \<and> modulationTarget ''step_down'' k
           = Some \<lparr>key_root = NOTES ! ((i + 10) mod 12), key_mode = key_mode k\<rparr>
       \<and> (\<exists>type s'. weightedRandom (Rep_unit01 (rnd (draws s))) KEY_MODULATIONS = Inr type
              \<and> modulate rnd s = Inr s'
              \<and> modulationTarget type (currentKey s) = Some (currentKey s'))"
proof -
  note n = note_of_index [OF assms]
  show ?thesis
    using n [of 7] n [of 5] n [of 9] n [of 3] n [of 6] n [of 2] n [of 10] modulate_key [of rnd s]
    by (simp add: modulationTarget_def Let_def)
qed

theorem modulate_root_arithmetic_witness:
  "(0 :: nat) < 12 \<and> normalizeNote (key_root C_major) = NOTES ! 0
   \<and> modulationTarget ''fifth_up'' C_major = Some \<lparr>key_root = ''G'', key_mode = ''major''\<rparr>
   \<and> modulationTarget ''fifth_down'' C_major = Some \<lparr>key_root = ''F'', key_mode = ''major''\<rparr>
   \<and> modulationTarget ''relative'' C_major = Some \<lparr>key_root = ''A'', key_mode = ''minor''\<rparr>
   \<and> modulationTarget ''parallel'' C_major = Some \<lparr>key_root = ''C'', key_mode = ''minor''\<rparr>
   \<and> modulationTarget ''tritone'' C_major = Some \<lparr>key_root = ''Gb'', key_mode = ''major''\<rparr>
   \<and> modulationTarget ''step_up'' C_major = Some \<lparr>key_root = ''D'', key_mode = ''major''\<rparr>
   \<and> modulationTarget ''step_down'' C_major = Some \<lparr>key_root = ''Bb'', key_mode = ''major''\<rparr>
   \<and> modulate (always 0) engineInC
       = Inr (engineInC\<lparr>currentKey := \<lparr>key_root = ''G'', key_mode = ''major''\<rparr>,
                         currentDegree := ''I'', draws := 2\<rparr>)"
proof -
  have h: "normalizeNote (key_root C_major) = NOTES ! 0"
    by (simp add: C_major_def normalizeNote_def ENHARMONIC_def NOTES_def)
  have m: "C_major\<lparr>key_mode := ''major''\<rparr> = C_major"
    by (simp add: C_major_def)
  have run: "modulate (always 0) engineInC
               = Inr (engineInC\<lparr>currentKey := \<lparr>key_root = ''G'', key_mode = ''major''\<rparr>,
                                 currentDegree := ''I'', draws := 2\<rparr>)"
    by code_simp
  from modulate_root_arithmetic [of 0 C_major "always 0" engineInC] h m run show ?thesis
    by (simp add: NOTES_def C_major_def)
qed

section \<open>Chord quality: the claims\<close>

lemma Rep_unit01_range: "0 \<le> Rep_unit01 r" "Rep_unit01 r < 1"
  using Rep_unit01 [of r] by simp_all

lemma js_nth_in: "js_nth xs i \<in> insert None (Some ` set xs)"
  by (auto simp: js_nth_def)

lemma js_nth_defined:
  "0 \<le> i \<Longrightarrow> i < int (length xs) \<Longrightarrow> \<exists>x \<in> set xs. js_nth xs i = Some x"
  by (auto simp: js_nth_def)

lemma functionOptions_in_lists: "fst (functionOptions s degree) \<in> set realizerOptionLists"
  by (simp add: functionOptions_def Let_def realizerOptionLists_def)

lemma qualityOptions_in_lists: "qualityOptions s degree hint \<in> set realizerOptionLists"
proof -
  have a: "QUALITY_OPTIONS_dominantToMinor \<in> set realizerOptionLists"
    and b: "QUALITY_OPTIONS_dominantToMajor \<in> set realizerOptionLists"
    by (simp_all add: realizerOptionLists_def)
  show ?thesis
    using functionOptions_in_lists [of s degree] a b
    by (cases "functionOptions s degree"; cases hint) (simp_all add: qualityOptions_def Let_def)
qed

lemma realizerOptionLists_nonempty: "opts \<in> set realizerOptionLists \<Longrightarrow> opts \<noteq> []"
  by (auto simp: realizerOptionLists_def QUALITY_OPTIONS_dominant_def
      QUALITY_OPTIONS_minor_def QUALITY_OPTIONS_halfDim_def QUALITY_OPTIONS_tonic_def
      QUALITY_OPTIONS_subdominant_def QUALITY_OPTIONS_dominantToMinor_def
      QUALITY_OPTIONS_dominantToMajor_def)

lemma qualityOptions_nonempty: "qualityOptions s degree hint \<noteq> []"
  using qualityOptions_in_lists by (rule realizerOptionLists_nonempty)

lemma realizerOptionLists_short: "opts \<in> set realizerOptionLists \<Longrightarrow> length opts \<le> 8"
  by (auto simp: realizerOptionLists_def QUALITY_OPTIONS_dominant_def
      QUALITY_OPTIONS_minor_def QUALITY_OPTIONS_halfDim_def QUALITY_OPTIONS_tonic_def
      QUALITY_OPTIONS_subdominant_def QUALITY_OPTIONS_dominantToMinor_def
      QUALITY_OPTIONS_dominantToMajor_def)

lemma DOUBLE_OVERFLOW_large: "8 \<le> DOUBLE_OVERFLOW"
proof -
  have "(2::int) ^ 1024 = 2 ^ 970 * 2 ^ 54" by (simp add: power_add [symmetric])
  then have "(2::int) ^ 1024 - 2 ^ 970 = 2 ^ 970 * (2 ^ 54 - 1)"
    by (simp add: algebra_simps)
  moreover have "(1::int) \<le> 2 ^ 970" by simp
  moreover have "(8::int) \<le> 2 ^ 54 - 1" by simp
  ultimately have "(8::int) \<le> 2 ^ 1024 - 2 ^ 970"
    using mult_mono [of 1 "2 ^ 970 :: int" 8 "2 ^ 54 - 1"] by simp
  then have "(of_int 8 :: rat) \<le> of_int (2 ^ 1024 - 2 ^ 970)"
    by (simp only: of_int_le_iff)
  then show ?thesis by (simp add: DOUBLE_OVERFLOW_def)
qed

lemma getChordQuality_in_options:
  "fst (getChordQuality rnd s degree hint) \<in> insert None (Some ` set (qualityOptions s degree hint))"
proof -
  have "fst (getChordQuality rnd s degree hint) = None
        \<or> (\<exists>i. fst (getChordQuality rnd s degree hint) = js_nth (qualityOptions s degree hint) i)"
    by (auto simp: getChordQuality_def Let_def Math_random_def)
  then show ?thesis
  proof
    assume "fst (getChordQuality rnd s degree hint) = None"
    then show ?thesis by simp
  next
    assume "\<exists>i. fst (getChordQuality rnd s degree hint) = js_nth (qualityOptions s degree hint) i"
    then obtain i where i: "fst (getChordQuality rnd s degree hint) = js_nth (qualityOptions s degree hint) i"
      by blast
    show ?thesis unfolding i by (rule js_nth_in)
  qed
qed

lemma getChordQuality_in_range:
  assumes "0 \<le> complexity (settings s)" and "complexity (settings s) \<le> 1"
  shows "getChordQuality rnd s degree hint
           = (js_nth (qualityOptions s degree hint)
                (min \<lfloor>Rep_unit01 (rnd (draws s))
                        * of_int \<lfloor>1 + (of_nat (length (qualityOptions s degree hint)) - 1)
                                        * complexity (settings s)\<rfloor>\<rfloor>
                     (int (length (qualityOptions s degree hint)) - 1)),
              s\<lparr>draws := Suc (draws s)\<rparr>)"
proof -
  let ?opts = "qualityOptions s degree hint"
  let ?p = "(of_nat (length ?opts) - 1) * complexity (settings s)"
  from qualityOptions_nonempty [of s degree hint] have "1 \<le> length ?opts"
    by (cases ?opts) simp_all
  then have n0: "(0::rat) \<le> of_nat (length ?opts) - 1" by simp
  from realizerOptionLists_short [OF qualityOptions_in_lists, of s degree hint]
  have n8: "of_nat (length ?opts) - 1 \<le> (7::rat)" by simp
  from n0 assms(1) have p0: "0 \<le> ?p" by simp
  from n0 assms(2) have "?p \<le> (of_nat (length ?opts) - 1) * 1"
    by (intro mult_left_mono) simp_all
  with n8 have p7: "?p \<le> 7" by simp
  from p0 p7 DOUBLE_OVERFLOW_large have "\<not> DOUBLE_OVERFLOW \<le> ?p" "\<not> ?p \<le> - DOUBLE_OVERFLOW"
    by linarith+
  then show ?thesis
    by (simp add: getChordQuality_def Let_def Math_random_def)
qed

lemma getChordQuality_defined:
  assumes "0 \<le> complexity (settings s)" and "complexity (settings s) \<le> 1"
  shows "\<exists>q \<in> set (qualityOptions s degree hint). fst (getChordQuality rnd s degree hint) = Some q"
proof -
  let ?opts = "qualityOptions s degree hint"
  let ?max = "\<lfloor>1 + (of_nat (length ?opts) - 1) * complexity (settings s)\<rfloor>"
  let ?ix = "\<lfloor>Rep_unit01 (rnd (draws s)) * of_int ?max\<rfloor>"
  from qualityOptions_nonempty [of s degree hint] have len: "1 \<le> length ?opts"
    by (cases ?opts) simp_all
  then have "(0::rat) \<le> of_nat (length ?opts) - 1" by simp
  with assms(1) have "(0::rat) \<le> (of_nat (length ?opts) - 1) * complexity (settings s)"
    by simp
  then have "1 \<le> ?max" by (simp add: le_floor_iff)
  then have "(0::rat) \<le> Rep_unit01 (rnd (draws s)) * of_int ?max"
    using Rep_unit01_range(1) by (intro mult_nonneg_nonneg) simp_all
  then have ix: "0 \<le> ?ix" by simp
  from len ix have "0 \<le> min ?ix (int (length ?opts) - 1)"
    and "min ?ix (int (length ?opts) - 1) < int (length ?opts)" by linarith+
  from js_nth_defined [OF this] show ?thesis
    by (simp add: getChordQuality_in_range [OF assms])
qed

lemma toUpperCase_V: "toUpperCase ''V'' = ''V''"
  by (simp add: toUpperCase_def upper_char_def)

lemma functionOptions_dominant:
  assumes "degree \<in> set [''V'', ''II'', ''III'', ''VI'', ''#IV'']"
  shows "functionOptions s degree = (QUALITY_OPTIONS_dominant, True)"
proof (cases "degree = ''V''")
  case True
  then show ?thesis by (simp add: functionOptions_def Let_def toUpperCase_V)
next
  case False
  with assms have "degree \<in> set [''II'', ''III'', ''VI'', ''#IV'']" by simp
  then show ?thesis by (simp add: functionOptions_def Let_def)
qed

text \<open>
  C6. When a dominant-function degree (\<open>V\<close>, or a secondary dominant \<open>II\<close>, \<open>III\<close>,
  \<open>VI\<close>, \<open>#IV\<close>) is realized with a hint, the option list is the darker
  \<open>dominantToMinor\<close> list if the hint is one of \<open>ii, iii, vi, i, iv, v\<close> or is \<open>I\<close>
  in a minor key, and the brighter \<open>dominantToMajor\<close> list otherwise; the quality
  returned is an element of that list (and is defined whenever the complexity setting
  is in its range, from 0 to 1). The hint is any non-empty string, as every degree
  token is.
\<close>

theorem dominant_quality_follows_hint:
  assumes "degree \<in> set [''V'', ''II'', ''III'', ''VI'', ''#IV'']" and "hint \<noteq> []"
  shows "qualityOptions s degree (Some hint) = spec_dominantOptions (key_mode (currentKey s)) hint
       \<and> fst (getChordQuality rnd s degree (Some hint))
            \<in> insert None (Some ` set (spec_dominantOptions (key_mode (currentKey s)) hint))
       \<and> (0 \<le> complexity (settings s) \<and> complexity (settings s) \<le> 1 \<longrightarrow>
            fst (getChordQuality rnd s degree (Some hint))
              \<in> Some ` set (spec_dominantOptions (key_mode (currentKey s)) hint))"
proof -
  have opts: "qualityOptions s degree (Some hint) = spec_dominantOptions (key_mode (currentKey s)) hint"
    using assms(2)
    by (auto simp: qualityOptions_def functionOptions_dominant [OF assms(1)] spec_dominantOptions_def)
  have "fst (getChordQuality rnd s degree (Some hint))
          \<in> Some ` set (spec_dominantOptions (key_mode (currentKey s)) hint)"
    if "0 \<le> complexity (settings s)" and "complexity (settings s) \<le> 1"
    using getChordQuality_defined [OF that, of degree "Some hint" rnd]
    by (auto simp: opts)
  with opts getChordQuality_in_options [of rnd s degree "Some hint"] show ?thesis
    by simp
qed

theorem dominant_quality_follows_hint_witness:
  "''V'' \<in> set [''V'', ''II'', ''III'', ''VI'', ''#IV''] \<and> ''I'' \<noteq> [] \<and> ''vi'' \<noteq> []
   \<and> 0 \<le> complexity (settings engineInC) \<and> complexity (settings engineInC) \<le> 1
   \<and> qualityOptions engineInC ''V'' (Some ''I'') = [''7'', ''9'', ''13'', ''7#11'', ''sus4'']
   \<and> fst (getChordQuality (always (1/2)) engineInC ''V'' (Some ''I''))
        \<in> Some ` set [''7'', ''9'', ''13'', ''7#11'', ''sus4'']
   \<and> qualityOptions engineInC ''V'' (Some ''vi'') = [''7'', ''7b9'', ''7#9'', ''7alt'']
   \<and> fst (getChordQuality (always (1/2)) engineInC ''V'' (Some ''vi''))
        \<in> Some ` set [''7'', ''7b9'', ''7#9'', ''7alt'']"
proof -
  have c: "0 \<le> complexity (settings engineInC)" "complexity (settings engineInC) \<le> 1"
    by (simp_all add: engineInC_def defaultSettings_def)
  have m: "key_mode (currentKey engineInC) = ''major''"
    by (simp add: engineInC_def C_major_def)
  have "spec_dominantOptions ''major'' ''I'' = [''7'', ''9'', ''13'', ''7#11'', ''sus4'']"
    and "spec_dominantOptions ''major'' ''vi'' = [''7'', ''7b9'', ''7#9'', ''7alt'']"
    by (simp_all add: spec_dominantOptions_def QUALITY_OPTIONS_dominantToMajor_def
        QUALITY_OPTIONS_dominantToMinor_def)
  with c m dominant_quality_follows_hint [of "''V''" "''I''" engineInC "always (1/2)"]
    dominant_quality_follows_hint [of "''V''" "''vi''" engineInC "always (1/2)"]
  show ?thesis by simp
qed

section \<open>Chord names: the claims\<close>

lemma vocabulary_complete: "set qualityVocabulary = set (concat realizerOptionLists)"
  by (simp add: qualityVocabulary_def realizerOptionLists_def QUALITY_OPTIONS_dominant_def
      QUALITY_OPTIONS_minor_def QUALITY_OPTIONS_halfDim_def QUALITY_OPTIONS_tonic_def
      QUALITY_OPTIONS_subdominant_def QUALITY_OPTIONS_dominantToMinor_def
      QUALITY_OPTIONS_dominantToMajor_def insert_commute)

text \<open>
  C7, as stated, fails: the token \<open>maj7#11\<close> of the tonic list, which the realizer
  returns for \<open>I\<close> in a major key, is rewritten by two rules of the chain, \<open>maj7\<close> and
  then \<open>7#11\<close>.
\<close>

theorem tonic_sharp_eleven_rewritten_twice:
  "''maj7#11'' \<in> set QUALITY_OPTIONS_tonic
   \<and> fst (getChordQuality (always (9/10))
            (engineInC\<lparr>settings := (settings engineInC)\<lparr>complexity := 1\<rparr>\<rparr>) ''I'' None)
       = Some ''maj7#11''
   \<and> rulesApplied QUALITY_REPLACEMENTS ''maj7#11'' = [''maj7'', ''7#11'']"
  by code_simp

text \<open>
  C7, amended. \<open>formatChordName\<close> maps every token of the vocabulary of the realizer to
  the display string of the table below, which also lists the rules applied to it.
  The tokens \<open>6\<close>, \<open>7\<close>, \<open>9\<close>, \<open>13\<close>, \<open>sus4\<close> and the half-diminished glyph
  match no rule; \<open>maj7#11\<close> and \<open>m69\<close> are rewritten by two rules each; every other
  token by exactly one, \<open>m7b5\<close> by its own rule only. The vocabulary is every string of
  an option list that \<open>getChordQuality\<close> can index.
\<close>

theorem formatChordName_display_table:
  "map (\<lambda>q. (q, formatQuality q, rulesApplied QUALITY_REPLACEMENTS q)) qualityVocabulary =
     [(''maj7'', delta @ ''7'', [''maj7'']),
      (''maj9'', delta @ ''9'', [''maj9'']),
      (''6'', ''6'', []),
      (''69'', ''6/9'', [''69'']),
      (''maj7#11'', delta @ ''7'' @ sharp @ ''11'', [''maj7'', ''7#11'']),
      (''7'', ''7'', []),
      (''m7'', ''-7'', [''m7'']),
      (''9'', ''9'', []),
      (''13'', ''13'', []),
      (''7#11'', ''7'' @ sharp @ ''11'', [''7#11'']),
      (''7alt'', ''7alt'', [''7alt'']),
      (''7b9'', ''7'' @ flat @ ''9'', [''7b9'']),
      (''7#9'', ''7'' @ sharp @ ''9'', [''7#9'']),
      (''sus4'', ''sus4'', []),
      (''m9'', ''-9'', [''m9'']),
      (''m11'', ''-11'', [''m11'']),
      (''m6'', ''-6'', [''m6'']),
      (''m69'', ''-6/9'', [''m6'', ''69'']),
      (''m7b5'', oslash @ ''7'', [''m7b5'']),
      (oslash @ ''7'', oslash @ ''7'', [])]
   \<and> set qualityVocabulary = set (concat realizerOptionLists)
   \<and> qualityOptions s degree hint \<in> set realizerOptionLists
   \<and> formatChordName chordRoot (Some q)
       = Inr \<lparr>name_root = chordRoot, name_quality = formatQuality q\<rparr>"
proof -
  have table: "map (\<lambda>q. (q, formatQuality q, rulesApplied QUALITY_REPLACEMENTS q)) qualityVocabulary =
     [(''maj7'', delta @ ''7'', [''maj7'']),
      (''maj9'', delta @ ''9'', [''maj9'']),
      (''6'', ''6'', []),
      (''69'', ''6/9'', [''69'']),
      (''maj7#11'', delta @ ''7'' @ sharp @ ''11'', [''maj7'', ''7#11'']),
      (''7'', ''7'', []),
      (''m7'', ''-7'', [''m7'']),
      (''9'', ''9'', []),
      (''13'', ''13'', []),
      (''7#11'', ''7'' @ sharp @ ''11'', [''7#11'']),
      (''7alt'', ''7alt'', [''7alt'']),
      (''7b9'', ''7'' @ flat @ ''9'', [''7b9'']),
      (''7#9'', ''7'' @ sharp @ ''9'', [''7#9'']),
      (''sus4'', ''sus4'', []),
      (''m9'', ''-9'', [''m9'']),
      (''m11'', ''-11'', [''m11'']),
      (''m6'', ''-6'', [''m6'']),
      (''m69'', ''-6/9'', [''m6'', ''69'']),
      (''m7b5'', oslash @ ''7'', [''m7b5'']),
      (oslash @ ''7'', oslash @ ''7'', [])]"
    by code_simp
  show ?thesis
    using vocabulary_complete qualityOptions_in_lists [of s degree hint]
    by (simp only: table) (simp add: formatChordName_def)
qed

section \<open>Bar generation: the claims\<close>

subsection \<open>Distributions stay non-empty\<close>

lemma js_set_nonempty: "js_set obj k v \<noteq> []"
  by (cases obj) (auto simp: js_set_def)

lemma foldl_js_set_nonempty:
  "acc \<noteq> [] \<or> es \<noteq> [] \<Longrightarrow>
   foldl (\<lambda>adjusted (degree, prob). js_set adjusted degree (f prob)) acc es \<noteq> []"
proof (induction es arbitrary: acc)
  case Nil
  then show ?case by simp
next
  case (Cons e es)
  obtain d p where e: "e = (d, p)" by (cases e)
  show ?case using Cons.IH [of "js_set acc d (f p)"] by (simp add: e js_set_nonempty)
qed

lemma adjustForAdventurousness_nonempty:
  "t \<noteq> [] \<Longrightarrow> adjustForAdventurousness s t \<noteq> []"
  using foldl_js_set_nonempty [of "[]" t] by (simp add: adjustForAdventurousness_def Let_def)

lemma penalize_nonempty: "t \<noteq> [] \<Longrightarrow> penalize t e \<noteq> []"
  by (cases e) (auto simp: penalize_def js_set_nonempty split: option.splits)

lemma foldl_penalize_nonempty: "t \<noteq> [] \<Longrightarrow> foldl penalize t cs \<noteq> []"
  by (induction cs arbitrary: t) (simp_all add: penalize_nonempty)

lemma applyAntiRepetition_nonempty: "t \<noteq> [] \<Longrightarrow> applyAntiRepetition s t \<noteq> []"
  by (simp add: applyAntiRepetition_def foldl_penalize_nonempty)

lemma DEGREE_TRANSITIONS_nonempty: "(k, t) \<in> set DEGREE_TRANSITIONS \<Longrightarrow> t \<noteq> []"
  by (auto simp: DEGREE_TRANSITIONS_def)

lemma MINOR_DEGREE_TRANSITIONS_nonempty: "(k, t) \<in> set MINOR_DEGREE_TRANSITIONS \<Longrightarrow> t \<noteq> []"
  by (auto simp: MINOR_DEGREE_TRANSITIONS_def)

lemma SECOND_ORDER_OVERRIDES_nonempty: "(k, t) \<in> set SECOND_ORDER_OVERRIDES \<Longrightarrow> t \<noteq> []"
  by (auto simp: SECOND_ORDER_OVERRIDES_def)

lemma tonic_row:
  "map_of DEGREE_TRANSITIONS ''I'' =
     Some [(''ii'', 0.22), (''IV'', 0.18), (''V'', 0.12), (''vi'', 0.15), (''iii'', 0.10),
           (''bVII'', 0.05), (''bIII'', 0.04), (''bVI'', 0.04), (''II'', 0.05), (''I'', 0.05)]"
  by (simp add: DEGREE_TRANSITIONS_def)

lemma tableRows_nonempty: "t \<in> set tableRows \<Longrightarrow> t \<noteq> []"
  by (auto simp: tableRows_def dest: DEGREE_TRANSITIONS_nonempty
      MINOR_DEGREE_TRANSITIONS_nonempty SECOND_ORDER_OVERRIDES_nonempty)

text \<open>
  No table has a key, and no distribution a target, that names a member of
  \<open>Object.prototype\<close>; nor does any approach sequence hold one.
\<close>

lemma tableRows_plain:
  assumes "t \<in> set tableRows" and "d \<in> fst ` set t"
  shows "d \<notin> set OBJECT_PROTOTYPE"
proof -
  have "list_all (\<lambda>t. list_all (\<lambda>e. fst e \<notin> set OBJECT_PROTOTYPE) t) tableRows"
    by code_simp
  with assms show ?thesis by (auto simp: list_all_iff)
qed

lemma table_keys_plain:
  assumes "k \<in> set OBJECT_PROTOTYPE"
  shows "map_of DEGREE_TRANSITIONS k = None" and "map_of MINOR_DEGREE_TRANSITIONS k = None"
proof -
  have "list_all (\<lambda>k. map_of DEGREE_TRANSITIONS k = None \<and> map_of MINOR_DEGREE_TRANSITIONS k = None)
          OBJECT_PROTOTYPE"
    by code_simp
  with assms show "map_of DEGREE_TRANSITIONS k = None" and "map_of MINOR_DEGREE_TRANSITIONS k = None"
    by (auto simp: list_all_iff)
qed

lemma approach_plain:
  assumes "(target, seq, w) \<in> set APPROACH_SEQUENCES"
  shows "set seq \<inter> set OBJECT_PROTOTYPE = {}"
proof -
  have "list_all (\<lambda>e. list_all (\<lambda>d. d \<notin> set OBJECT_PROTOTYPE) (fst (snd e))) APPROACH_SEQUENCES"
    by code_simp
  with assms show ?thesis by (fastforce simp: list_all_iff)
qed

lemma tonic_plain: "''I'' \<notin> set OBJECT_PROTOTYPE"
  by (simp add: OBJECT_PROTOTYPE_def)

lemma js_get_plain:
  "k \<notin> set OBJECT_PROTOTYPE \<Longrightarrow>
   js_get obj k = (case map_of obj k of Some v \<Rightarrow> Own v | None \<Rightarrow> Missing)"
  by (simp add: js_get_def)

lemma firstOrder_plain:
  assumes "currentDegree s \<notin> set OBJECT_PROTOTYPE"
  shows "firstOrder s
           = (case map_of (if key_mode (currentKey s) = ''minor'' then MINOR_DEGREE_TRANSITIONS
                           else DEGREE_TRANSITIONS) (currentDegree s) of
                Some t \<Rightarrow> t
              | None \<Rightarrow>
                  (case map_of DEGREE_TRANSITIONS (currentDegree s) of
                     Some t \<Rightarrow> t
                   | None \<Rightarrow> the (map_of DEGREE_TRANSITIONS ''I'')))"
  by (simp add: firstOrder_def Let_def js_get_plain [OF assms] split: option.splits)

lemma firstOrder_inherited:
  assumes "currentDegree s \<in> set OBJECT_PROTOTYPE"
  shows "firstOrder s = []"
  using assms table_keys_plain [OF assms]
  by (simp add: firstOrder_def Let_def js_get_def)

lemma firstOrder_row:
  assumes "currentDegree s \<notin> set OBJECT_PROTOTYPE"
  shows "firstOrder s \<in> set tableRows"
proof -
  have row: "map_of tbl k = Some t \<Longrightarrow> t \<in> snd ` set tbl" for tbl :: "(string \<times> dist) list" and k t
    by (force dest: map_of_SomeD)
  have tonic: "the (map_of DEGREE_TRANSITIONS ''I'') \<in> snd ` set DEGREE_TRANSITIONS"
    using row [OF tonic_row] by (simp add: tonic_row)
  show ?thesis
    unfolding firstOrder_plain [OF assms] tableRows_def
    using tonic by (auto split: option.splits dest: row)
qed

lemma secondOrder_row: "secondOrder s = Some t \<Longrightarrow> t \<in> set tableRows"
  by (force simp: secondOrder_def tableRows_def Let_def
      split: option.splits if_splits dest: map_of_SomeD)

lemma rawTransitions_row:
  assumes "currentDegree s \<notin> set OBJECT_PROTOTYPE"
  shows "rawTransitions s \<in> set tableRows"
  using firstOrder_row [OF assms] secondOrder_row [of s]
  by (cases "secondOrder s") (simp_all add: rawTransitions_def)

lemma rawTransitions_nonempty:
  "currentDegree s \<notin> set OBJECT_PROTOTYPE \<Longrightarrow> rawTransitions s \<noteq> []"
  using rawTransitions_row by (rule tableRows_nonempty)


subsection \<open>The shaper keeps the degrees of a distribution\<close>

lemma foldl_js_set_keys:
  "set (map fst (foldl (\<lambda>adjusted (degree, prob). js_set adjusted degree (f prob)) acc es))
     = set (map fst acc) \<union> set (map fst es)"
proof (induction es arbitrary: acc)
  case Nil
  then show ?case by simp
next
  case (Cons e es)
  obtain d p where e: "e = (d, p)" by (cases e)
  show ?case using Cons.IH [of "js_set acc d (f p)"] by (auto simp: e map_fst_js_set)
qed

lemma adjustForAdventurousness_keys:
  "fst ` set (adjustForAdventurousness s t) = fst ` set t"
  using foldl_js_set_keys [of _ "[]" t] by (simp add: adjustForAdventurousness_def Let_def)

lemma penalize_keys: "map fst (penalize t e) = map fst t"
proof -
  have "map_of t d = Some w \<Longrightarrow> map fst (js_set t d v) = map fst t" for d w v
    by (simp add: map_fst_js_set) (metis map_of_eq_None_iff option.distinct(1))
  then show ?thesis
    by (cases e) (auto simp: penalize_def split: option.splits)
qed

lemma foldl_penalize_keys: "map fst (foldl penalize t cs) = map fst t"
  by (induction cs arbitrary: t) (simp_all add: penalize_keys)

lemma applyAntiRepetition_keys: "fst ` set (applyAntiRepetition s t) = fst ` set t"
proof -
  have "map fst (applyAntiRepetition s t) = map fst t"
    by (simp add: applyAntiRepetition_def foldl_penalize_keys)
  then have "set (map fst (applyAntiRepetition s t)) = set (map fst t)" by simp
  then show ?thesis by simp
qed


subsection \<open>Approach sequences and the next degree\<close>

lemma approach_weights:
  "foldl (\<lambda>weights (target, sequence, weight).
            if target \<noteq> c then js_set weights target weight else weights) [] APPROACH_SEQUENCES
     = map (\<lambda>(t, seq, w). (t, w)) (filter (\<lambda>(t, seq, w). t \<noteq> c) APPROACH_SEQUENCES)"
  by (simp add: APPROACH_SEQUENCES_def js_set_def)

lemma approach_weights_nonempty:
  "map (\<lambda>(t, seq, w). (t, w)) (filter (\<lambda>(t, seq, w). t \<noteq> c) APPROACH_SEQUENCES) \<noteq> []"
  by (auto simp: APPROACH_SEQUENCES_def)

lemma APPROACH_SEQUENCES_distinct: "distinct (map fst APPROACH_SEQUENCES)"
  by (simp add: APPROACH_SEQUENCES_def)

lemma approach_weights_key:
  assumes "k \<in> fst ` set (map (\<lambda>(t, seq, w). (t, w)) (filter (\<lambda>(t, seq, w). t \<noteq> c) APPROACH_SEQUENCES))"
  shows "k \<noteq> c \<and> (\<exists>seq w. map_of APPROACH_SEQUENCES k = Some (seq, w) \<and> (k, seq, w) \<in> set APPROACH_SEQUENCES)"
proof -
  from assms obtain seq w where mem: "(k, seq, w) \<in> set APPROACH_SEQUENCES" and ne: "k \<noteq> c"
    by auto
  from map_of_is_SomeI [OF APPROACH_SEQUENCES_distinct mem] mem ne show ?thesis by blast
qed

lemma tryStartApproach_starts:
  "\<exists>target seq w. (target, seq, w) \<in> set APPROACH_SEQUENCES \<and> target \<noteq> currentDegree s
      \<and> tryStartApproach rnd s = Inr (True, s\<lparr>approachQueue := seq, draws := Suc (draws s)\<rparr>)"
proof -
  let ?weights = "map (\<lambda>(t, seq, w). (t, w))
                    (filter (\<lambda>(t, seq, w). t \<noteq> currentDegree s) APPROACH_SEQUENCES)"
  from weightedRandom_total [OF approach_weights_nonempty]
  obtain k where k: "weightedRandom (Rep_unit01 (rnd (draws s))) ?weights = Inr k" by blast
  from approach_weights_key [OF weightedRandom_key [OF k]]
  obtain seq w where ne: "k \<noteq> currentDegree s"
    and m: "map_of APPROACH_SEQUENCES k = Some (seq, w)"
    and mem: "(k, seq, w) \<in> set APPROACH_SEQUENCES" by blast
  have "tryStartApproach rnd s = Inr (True, s\<lparr>approachQueue := seq, draws := Suc (draws s)\<rparr>)"
    using k m approach_weights_nonempty [of "currentDegree s"]
    by (simp add: tryStartApproach_def Let_def approach_weights Math_random_def)
  with ne mem show ?thesis by blast
qed


lemma getNextDegree_queued:
  "approachQueue s = d # q \<Longrightarrow> getNextDegree rnd s = Inr (d, s\<lparr>approachQueue := q\<rparr>)"
  by (simp add: getNextDegree_def)

lemma drawShaped_result:
  assumes "drawShaped rnd s t = Inr (d, s')"
  shows "s' = s\<lparr>draws := Suc (draws s)\<rparr> \<and> d \<in> fst ` set t"
proof -
  let ?t2 = "applyAntiRepetition s (adjustForAdventurousness s t)"
  from assms have w: "weightedRandom (Rep_unit01 (rnd (draws s))) ?t2 = Inr d"
    and s': "s' = s\<lparr>draws := Suc (draws s)\<rparr>"
    by (auto simp: drawShaped_def Let_def Math_random_def split: sum.splits)
  from weightedRandom_key [OF w] have "d \<in> fst ` set t"
    by (simp add: applyAntiRepetition_keys adjustForAdventurousness_keys)
  with s' show ?thesis by simp
qed

lemma drawShaped_total:
  assumes "t \<noteq> []"
  shows "\<exists>d. drawShaped rnd s t = Inr (d, s\<lparr>draws := Suc (draws s)\<rparr>) \<and> d \<in> fst ` set t"
proof -
  have "applyAntiRepetition s (adjustForAdventurousness s t) \<noteq> []"
    using assms by (simp add: applyAntiRepetition_nonempty adjustForAdventurousness_nonempty)
  from weightedRandom_total [OF this, of "Rep_unit01 (rnd (draws s))"]
  obtain d where "drawShaped rnd s t = Inr (d, s\<lparr>draws := Suc (draws s)\<rparr>)"
    by (auto simp: drawShaped_def Let_def Math_random_def)
  with drawShaped_result [OF this] show ?thesis by blast
qed

lemma drawShaped_empty: "drawShaped rnd s [] = Inl TypeError"
proof -
  have a: "adjustForAdventurousness s [] = []"
    by (simp add: adjustForAdventurousness_def)
  have "applyAntiRepetition s [] = []"
    using applyAntiRepetition_keys [of s "[]"] by simp
  with a show ?thesis
    by (simp add: drawShaped_def Let_def Math_random_def weightedRandom_def)
qed

lemma rawTransitions_draws [simp]: "rawTransitions (s\<lparr>draws := n\<rparr>) = rawTransitions s"
proof -
  have "secondOrder (s\<lparr>draws := n\<rparr>) = secondOrder s"
    by (cases "previousDegree s") (simp_all add: secondOrder_def)
  moreover have "firstOrder (s\<lparr>draws := n\<rparr>) = firstOrder s"
    by (simp add: firstOrder_def cong: lookup.case_cong)
  ultimately show ?thesis by (simp add: rawTransitions_def cong: option.case_cong)
qed

lemma getNextDegree_triggered:
  assumes "approachQueue s = []" and "Rep_unit01 (rnd (draws s)) < APPROACH_PROBABILITY"
  shows "\<exists>target seq w. (target, seq, w) \<in> set APPROACH_SEQUENCES \<and> target \<noteq> currentDegree s
           \<and> getNextDegree rnd s
               = Inr (hd seq, s\<lparr>approachQueue := tl seq, draws := Suc (Suc (draws s))\<rparr>)"
proof -
  from tryStartApproach_starts [of "s\<lparr>draws := Suc (draws s)\<rparr>" rnd]
  obtain target seq w where mem: "(target, seq, w) \<in> set APPROACH_SEQUENCES"
    and ne: "target \<noteq> currentDegree s"
    and t: "tryStartApproach rnd (s\<lparr>draws := Suc (draws s)\<rparr>)
              = Inr (True, s\<lparr>approachQueue := seq, draws := Suc (Suc (draws s))\<rparr>)"
    by auto
  have "getNextDegree rnd s = Inr (hd seq, s\<lparr>approachQueue := tl seq, draws := Suc (Suc (draws s))\<rparr>)"
    using assms t by (simp add: getNextDegree_def Math_random_def)
  with mem ne show ?thesis by blast
qed

lemma getNextDegree_plain:
  assumes "approachQueue s = []" and "\<not> Rep_unit01 (rnd (draws s)) < APPROACH_PROBABILITY"
  shows "getNextDegree rnd s = drawShaped rnd (s\<lparr>draws := Suc (draws s)\<rparr>) (rawTransitions s)"
  using assms by (simp add: getNextDegree_def Math_random_def)

lemma APPROACH_SEQUENCES_three:
  "(target, seq, w) \<in> set APPROACH_SEQUENCES \<Longrightarrow> \<exists>a b c. seq = [a, b, c]"
  by (auto simp: APPROACH_SEQUENCES_def)

text \<open>
  What a call of \<open>getNextDegree\<close> that returns has changed: the queue and the count of
  draws, nothing else.
\<close>

lemma getNextDegree_result:
  assumes "getNextDegree rnd s = Inr (d, s')"
  shows "\<exists>q n. s' = s\<lparr>approachQueue := q, draws := n\<rparr>"
proof (cases "approachQueue s")
  case (Cons d0 q)
  have "s\<lparr>approachQueue := q\<rparr> = s\<lparr>approachQueue := q, draws := draws s\<rparr>" by simp
  with getNextDegree_queued [OF Cons, of rnd] assms show ?thesis by (metis Pair_inject sum.inject(2))
next
  case Nil
  show ?thesis
  proof (cases "Rep_unit01 (rnd (draws s)) < APPROACH_PROBABILITY")
    case True
    from getNextDegree_triggered [where rnd = rnd, OF Nil True] assms show ?thesis by auto
  next
    case False
    from getNextDegree_plain [where rnd = rnd, OF Nil False] assms
    have "drawShaped rnd (s\<lparr>draws := Suc (draws s)\<rparr>) (rawTransitions s) = Inr (d, s')" by simp
    from drawShaped_result [OF this]
    have "s' = s\<lparr>approachQueue := [], draws := Suc (Suc (draws s))\<rparr>" using Nil by simp
    then show ?thesis by blast
  qed
qed

text \<open>
  \<open>getNextDegree\<close> returns whenever the current degree and the queued degrees name no
  member of \<open>Object.prototype\<close>, and the degree it returns and the degrees it leaves
  queued are again of that kind.
\<close>

lemma getNextDegree_total:
  assumes "currentDegree s \<notin> set OBJECT_PROTOTYPE"
    and "set (approachQueue s) \<inter> set OBJECT_PROTOTYPE = {}"
  shows "\<exists>d q n. getNextDegree rnd s = Inr (d, s\<lparr>approachQueue := q, draws := n\<rparr>)
           \<and> d \<notin> set OBJECT_PROTOTYPE \<and> set q \<inter> set OBJECT_PROTOTYPE = {}"
proof (cases "approachQueue s")
  case (Cons d q)
  have "s\<lparr>approachQueue := q\<rparr> = s\<lparr>approachQueue := q, draws := draws s\<rparr>" by simp
  moreover from assms(2) Cons have "d \<notin> set OBJECT_PROTOTYPE" "set q \<inter> set OBJECT_PROTOTYPE = {}"
    by auto
  ultimately show ?thesis using getNextDegree_queued [OF Cons, of rnd] by metis
next
  case Nil
  show ?thesis
  proof (cases "Rep_unit01 (rnd (draws s)) < APPROACH_PROBABILITY")
    case True
    from getNextDegree_triggered [where rnd = rnd, OF Nil True]
    obtain target seq w where mem: "(target, seq, w) \<in> set APPROACH_SEQUENCES"
      and g: "getNextDegree rnd s
                = Inr (hd seq, s\<lparr>approachQueue := tl seq, draws := Suc (Suc (draws s))\<rparr>)"
      by blast
    from APPROACH_SEQUENCES_three [OF mem] obtain a b c where seq: "seq = [a, b, c]" by blast
    from approach_plain [OF mem] seq
    have "hd seq \<notin> set OBJECT_PROTOTYPE" "set (tl seq) \<inter> set OBJECT_PROTOTYPE = {}" by auto
    with g show ?thesis by blast
  next
    case False
    have cur: "currentDegree (s\<lparr>draws := Suc (draws s)\<rparr>) \<notin> set OBJECT_PROTOTYPE"
      using assms(1) by simp
    from drawShaped_total [OF rawTransitions_nonempty [OF assms(1)], of rnd "s\<lparr>draws := Suc (draws s)\<rparr>"]
    obtain d where d: "drawShaped rnd (s\<lparr>draws := Suc (draws s)\<rparr>) (rawTransitions s)
                      = Inr (d, s\<lparr>draws := Suc (Suc (draws s))\<rparr>)"
      and key: "d \<in> fst ` set (rawTransitions s)" by auto
    from tableRows_plain [OF rawTransitions_row [OF assms(1)] key]
    have plain: "d \<notin> set OBJECT_PROTOTYPE" .
    have "s\<lparr>draws := Suc (Suc (draws s))\<rparr> = s\<lparr>approachQueue := [], draws := Suc (Suc (draws s))\<rparr>"
      using Nil by simp
    with d plain getNextDegree_plain [where rnd = rnd, OF Nil False]
    have "getNextDegree rnd s = Inr (d, s\<lparr>approachQueue := [], draws := Suc (Suc (draws s))\<rparr>)
          \<and> d \<notin> set OBJECT_PROTOTYPE \<and> set [] \<inter> set OBJECT_PROTOTYPE = {}"
      by simp
    then show ?thesis by blast
  qed
qed

text \<open>
  With a current degree that names an inherited member, no queue, no approach and no
  override, there is nothing to draw from: \<open>weightedRandom\<close> throws.
\<close>

lemma getNextDegree_inherited:
  assumes "approachQueue s = []" and "\<not> Rep_unit01 (rnd (draws s)) < APPROACH_PROBABILITY"
    and "previousDegree s = None" and "currentDegree s \<in> set OBJECT_PROTOTYPE"
  shows "getNextDegree rnd s = Inl TypeError"
proof -
  have "rawTransitions s = []"
    using assms(3) firstOrder_inherited [OF assms(4)]
    by (simp add: rawTransitions_def secondOrder_def)
  with getNextDegree_plain [where rnd = rnd, OF assms(1,2)] show ?thesis
    by (simp add: drawShaped_empty)
qed

subsection \<open>What one chord slot changes\<close>

lemma modulate_shape:
  "\<exists>k d n. modulate rnd s = Inr (s\<lparr>currentKey := k, currentDegree := d, draws := n\<rparr>)
     \<and> (d = ''I'' \<or> d = currentDegree s)"
proof -
  have "KEY_MODULATIONS \<noteq> []" by (simp add: KEY_MODULATIONS_def)
  from weightedRandom_total [OF this]
  obtain type where t: "weightedRandom (Rep_unit01 (rnd (draws s))) KEY_MODULATIONS = Inr type"
    by blast
  from modulationTarget_defined [OF weightedRandom_key [OF t]]
  obtain k' where k': "modulationTarget type (currentKey s) = Some k'" by blast
  let ?d = "if Rep_unit01 (rnd (Suc (draws s))) < 0.6 then ''I'' else currentDegree s"
  have "modulate rnd s = Inr (s\<lparr>currentKey := k', currentDegree := ?d, draws := Suc (Suc (draws s))\<rparr>)"
    using t k' by (simp add: modulate_def Math_random_def Let_def)
  moreover have "?d = ''I'' \<or> ?d = currentDegree s" by simp
  ultimately show ?thesis by blast
qed

lemma maybeModulate_shape:
  "\<exists>k d n. maybeModulate rnd s = Inr (s\<lparr>currentKey := k, currentDegree := d, draws := n\<rparr>)
     \<and> (d = ''I'' \<or> d = currentDegree s)"
proof (cases "Rep_unit01 (rnd (draws s))
                < (if currentDegree s = ''I'' \<or> currentDegree s = ''i''
                   then (1 - keyStability (settings s)) * 2 else 1 - keyStability (settings s))")
  case True
  from modulate_shape [of rnd "s\<lparr>draws := Suc (draws s)\<rparr>"]
  obtain k d n where "modulate rnd (s\<lparr>draws := Suc (draws s)\<rparr>)
                        = Inr (s\<lparr>currentKey := k, currentDegree := d, draws := n\<rparr>)"
    and "d = ''I'' \<or> d = currentDegree s" by auto
  with True have "maybeModulate rnd s = Inr (s\<lparr>currentKey := k, currentDegree := d, draws := n\<rparr>)
                  \<and> (d = ''I'' \<or> d = currentDegree s)"
    by (simp add: maybeModulate_def Math_random_def Let_def)
  then show ?thesis by blast
next
  case False
  then have "maybeModulate rnd s
               = Inr (s\<lparr>currentKey := currentKey s, currentDegree := currentDegree s,
                        draws := Suc (draws s)\<rparr>)"
    by (simp add: maybeModulate_def Math_random_def Let_def)
  then show ?thesis by blast
qed

text \<open>
  A chord slot that returns has pushed the degree it emits on the window
  (\<open>recentDegrees.push\<close>, then \<open>shift\<close> beyond 8 entries), and has made it the current
  degree.
\<close>

lemma chordSlot_result:
  assumes "chordSlot rnd s = Inr (d, s')"
  shows "recentDegrees s' = pushRecent (recentDegrees s) d \<and> currentDegree s' = d
       \<and> settings s' = settings s"
proof -
  from maybeModulate_shape [of rnd s]
  obtain k cd n where m: "maybeModulate rnd s = Inr (s\<lparr>currentKey := k, currentDegree := cd, draws := n\<rparr>)"
    by blast
  let ?s1 = "s\<lparr>currentKey := k, currentDegree := cd, draws := n\<rparr>"
  from assms m obtain s2 where g: "getNextDegree rnd ?s1 = Inr (d, s2)"
    and s': "s' = s2\<lparr>previousDegree := Some (currentDegree s2), currentDegree := d,
                      recentDegrees := pushRecent (recentDegrees s2) d\<rparr>"
    by (auto simp: chordSlot_def split: sum.splits)
  from getNextDegree_result [OF g] obtain q n' where "s2 = ?s1\<lparr>approachQueue := q, draws := n'\<rparr>"
    by blast
  with s' show ?thesis by simp
qed

lemma chordSlot_total:
  assumes "currentDegree s \<notin> set OBJECT_PROTOTYPE"
    and "set (approachQueue s) \<inter> set OBJECT_PROTOTYPE = {}"
  shows "\<exists>d s'. chordSlot rnd s = Inr (d, s') \<and> settings s' = settings s
           \<and> currentDegree s' \<notin> set OBJECT_PROTOTYPE
           \<and> set (approachQueue s') \<inter> set OBJECT_PROTOTYPE = {}"
proof -
  from maybeModulate_shape [of rnd s]
  obtain k cd n where m: "maybeModulate rnd s = Inr (s\<lparr>currentKey := k, currentDegree := cd, draws := n\<rparr>)"
    and cd: "cd = ''I'' \<or> cd = currentDegree s"
    by blast
  let ?s1 = "s\<lparr>currentKey := k, currentDegree := cd, draws := n\<rparr>"
  from cd assms(1) tonic_plain have c1: "currentDegree ?s1 \<notin> set OBJECT_PROTOTYPE" by auto
  from assms(2) have q1: "set (approachQueue ?s1) \<inter> set OBJECT_PROTOTYPE = {}" by simp
  from getNextDegree_total [OF c1 q1, of rnd]
  obtain d q n' where "getNextDegree rnd ?s1
      = Inr (d, s\<lparr>currentKey := k, currentDegree := cd, approachQueue := q, draws := n'\<rparr>)"
    and "d \<notin> set OBJECT_PROTOTYPE" and "set q \<inter> set OBJECT_PROTOTYPE = {}"
    by auto
  with m show ?thesis by (simp add: chordSlot_def)
qed

lemma chordSlot_queued:
  assumes "approachQueue s = d # q"
  shows "\<exists>s'. chordSlot rnd s = Inr (d, s') \<and> approachQueue s' = q"
proof -
  from maybeModulate_shape [of rnd s]
  obtain k cd n where m: "maybeModulate rnd s = Inr (s\<lparr>currentKey := k, currentDegree := cd, draws := n\<rparr>)"
    by blast
  have "approachQueue (s\<lparr>currentKey := k, currentDegree := cd, draws := n\<rparr>) = d # q"
    using assms by simp
  from getNextDegree_queued [OF this, of rnd] m show ?thesis
    by (simp add: chordSlot_def)
qed

lemma degreeLoop_result:
  "degreeLoop rnd n s = Inr (ds, s') \<Longrightarrow>
   recentDegrees s' = foldl pushRecent (recentDegrees s) ds \<and> length ds = n"
proof (induction n arbitrary: s ds)
  case 0
  then show ?case by auto
next
  case (Suc n)
  from Suc.prems obtain d s1 ds' where c: "chordSlot rnd s = Inr (d, s1)"
    and l: "degreeLoop rnd n s1 = Inr (ds', s')" and ds: "ds = d # ds'"
    by (auto split: sum.splits)
  from chordSlot_result [OF c] Suc.IH [OF l] show ?case by (simp add: ds)
qed

lemma degreeLoop_total:
  assumes "currentDegree s \<notin> set OBJECT_PROTOTYPE"
    and "set (approachQueue s) \<inter> set OBJECT_PROTOTYPE = {}"
  shows "\<exists>ds s'. degreeLoop rnd n s = Inr (ds, s') \<and> length ds = n \<and> settings s' = settings s
           \<and> currentDegree s' \<notin> set OBJECT_PROTOTYPE
           \<and> set (approachQueue s') \<inter> set OBJECT_PROTOTYPE = {}"
  using assms
proof (induction n arbitrary: s)
  case 0
  then show ?case by simp
next
  case (Suc n)
  from chordSlot_total [OF Suc.prems, of rnd]
  obtain d s1 where c: "chordSlot rnd s = Inr (d, s1)" and st: "settings s1 = settings s"
    and c1: "currentDegree s1 \<notin> set OBJECT_PROTOTYPE"
    and q1: "set (approachQueue s1) \<inter> set OBJECT_PROTOTYPE = {}" by blast
  from Suc.IH [OF c1 q1]
  obtain ds s2 where "degreeLoop rnd n s1 = Inr (ds, s2)" "length ds = n" "settings s2 = settings s1"
    "currentDegree s2 \<notin> set OBJECT_PROTOTYPE" "set (approachQueue s2) \<inter> set OBJECT_PROTOTYPE = {}"
    by blast
  with c st show ?case by simp
qed


subsection \<open>Realization never fails for a complexity in range\<close>

lemma getChordQuality_state: "snd (getChordQuality rnd s degree hint) = s\<lparr>draws := Suc (draws s)\<rparr>"
  by (simp add: getChordQuality_def Let_def Math_random_def)

lemma realizeChord_result:
  assumes "realizeChord rnd s degree hint = Inr (c, s')"
  shows "s' = s\<lparr>draws := Suc (draws s)\<rparr> \<and> chord_degree c = formatDegree degree"
proof -
  obtain q s1 where g: "getChordQuality rnd s degree hint = (q, s1)" by (cases "getChordQuality rnd s degree hint")
  with getChordQuality_state [of rnd s degree hint] have s1: "s1 = s\<lparr>draws := Suc (draws s)\<rparr>" by simp
  from assms g show ?thesis
    by (auto simp: realizeChord_def Let_def formatChordName_def s1 split: option.splits)
qed

lemma realizeChord_total:
  assumes "0 \<le> complexity (settings s)" and "complexity (settings s) \<le> 1"
  shows "\<exists>c. realizeChord rnd s degree hint = Inr (c, s\<lparr>draws := Suc (draws s)\<rparr>)"
proof -
  from getChordQuality_defined [OF assms, of degree hint rnd]
  obtain q where "fst (getChordQuality rnd s degree hint) = Some q" by blast
  with getChordQuality_state [of rnd s degree hint]
  have "getChordQuality rnd s degree hint = (Some q, s\<lparr>draws := Suc (draws s)\<rparr>)"
    by (metis prod.collapse)
  then show ?thesis
    by (simp add: realizeChord_def Let_def formatChordName_def)
qed

lemma realizeAll_result:
  "realizeAll rnd s degrees = Inr (cs, s') \<Longrightarrow>
   (\<exists>n. s' = s\<lparr>draws := n\<rparr>) \<and> map chord_degree cs = map formatDegree degrees"
proof (induction degrees arbitrary: s cs)
  case Nil
  then have s': "s' = s\<lparr>draws := draws s\<rparr>" and cs: "cs = []" by simp_all
  from s' have "\<exists>n. s' = s\<lparr>draws := n\<rparr>" by (rule exI)
  with cs show ?case by simp
next
  case (Cons degree rest)
  let ?hint = "case rest of d # _ \<Rightarrow> d | [] \<Rightarrow> peekLikelyNextDegree s"
  from Cons.prems obtain c s1 cs' where r: "realizeChord rnd s degree (Some ?hint) = Inr (c, s1)"
    and a: "realizeAll rnd s1 rest = Inr (cs', s')" and cs: "cs = c # cs'"
    by (auto simp: Let_def split: sum.splits)
  from realizeChord_result [OF r] have s1: "s1 = s\<lparr>draws := Suc (draws s)\<rparr>"
    and cd: "chord_degree c = formatDegree degree" by simp_all
  from Cons.IH [OF a] obtain n where "s' = s1\<lparr>draws := n\<rparr>"
    and "map chord_degree cs' = map formatDegree rest" by blast
  with s1 cd cs have "s' = s\<lparr>draws := n\<rparr>" "map chord_degree cs = map formatDegree (degree # rest)"
    by simp_all
  then show ?case by blast
qed

lemma realizeAll_total:
  "0 \<le> complexity (settings s) \<Longrightarrow> complexity (settings s) \<le> 1 \<Longrightarrow>
   \<exists>cs s'. realizeAll rnd s degrees = Inr (cs, s') \<and> length cs = length degrees"
proof (induction degrees arbitrary: s)
  case Nil
  then show ?case by simp
next
  case (Cons degree rest)
  let ?hint = "case rest of d # _ \<Rightarrow> d | [] \<Rightarrow> peekLikelyNextDegree s"
  from realizeChord_total [OF Cons.prems, of rnd degree "Some ?hint"]
  obtain c where c: "realizeChord rnd s degree (Some ?hint) = Inr (c, s\<lparr>draws := Suc (draws s)\<rparr>)"
    by blast
  have "0 \<le> complexity (settings (s\<lparr>draws := Suc (draws s)\<rparr>))"
    "complexity (settings (s\<lparr>draws := Suc (draws s)\<rparr>)) \<le> 1" using Cons.prems by simp_all
  from Cons.IH [OF this]
  obtain cs s' where "realizeAll rnd (s\<lparr>draws := Suc (draws s)\<rparr>) rest = Inr (cs, s')"
    and "length cs = length rest" by blast
  with c show ?case by (simp add: Let_def)
qed

text \<open>
  A call of \<open>generateBar\<close> that returns has pushed on the window the degrees of the
  chords of its bar, in order; \<open>chord.degree\<close> is the display form of the degree.
\<close>

lemma generateBar_result:
  assumes "generateBar rnd s = Inr (bar, s')"
  shows "\<exists>ds. map chord_degree (chords bar) = map formatDegree ds
           \<and> recentDegrees s' = foldl pushRecent (recentDegrees s) ds"
proof -
  let ?n = "if Rep_unit01 (rnd (draws s)) < twoChordProbability (settings s) then 2 else 1 :: nat"
  let ?s1 = "s\<lparr>barCount := barCount s + 1, draws := Suc (draws s)\<rparr>"
  from assms obtain ds s2 cs s3 where d: "degreeLoop rnd ?n ?s1 = Inr (ds, s2)"
    and r: "realizeAll rnd s2 ds = Inr (cs, s3)"
    and bar: "chords bar = cs" and s': "s' = s3\<lparr>history := history s3 @ [bar]\<rparr>"
    by (auto simp: generateBar_def Let_def Math_random_def split: sum.splits)
  from degreeLoop_result [OF d] have "recentDegrees s2 = foldl pushRecent (recentDegrees s) ds"
    by simp
  moreover from realizeAll_result [OF r] obtain n where "s3 = s2\<lparr>draws := n\<rparr>"
    and "map chord_degree cs = map formatDegree ds" by blast
  ultimately show ?thesis using bar s' by auto
qed

lemma generateBars_result:
  "generateBars rnd n s = Inr (bars, s') \<Longrightarrow>
   \<exists>ds. map chord_degree (concat (map chords bars)) = map formatDegree ds
      \<and> recentDegrees s' = foldl pushRecent (recentDegrees s) ds"
proof (induction n arbitrary: s bars)
  case 0
  then have "bars = []" and "s' = s" by simp_all
  then have "map chord_degree (concat (map chords bars)) = map formatDegree []
             \<and> recentDegrees s' = foldl pushRecent (recentDegrees s) []" by simp
  then show ?case by blast
next
  case (Suc n)
  from Suc.prems obtain bar s1 bars' where g: "generateBar rnd s = Inr (bar, s1)"
    and r: "generateBars rnd n s1 = Inr (bars', s')" and bars: "bars = bar # bars'"
    by (auto split: sum.splits)
  from generateBar_result [OF g] obtain ds where
    d1: "map chord_degree (chords bar) = map formatDegree ds"
    and w1: "recentDegrees s1 = foldl pushRecent (recentDegrees s) ds" by blast
  from Suc.IH [OF r] obtain ds' where
    d2: "map chord_degree (concat (map chords bars')) = map formatDegree ds'"
    and w2: "recentDegrees s' = foldl pushRecent (recentDegrees s1) ds'" by blast
  from d1 d2 w1 w2 have "map chord_degree (concat (map chords bars)) = map formatDegree (ds @ ds')
                         \<and> recentDegrees s' = foldl pushRecent (recentDegrees s) (ds @ ds')"
    by (simp add: bars)
  then show ?case by blast
qed

lemma generateBar_total:
  assumes "0 \<le> complexity (settings s)" and "complexity (settings s) \<le> 1"
    and "currentDegree s \<notin> set OBJECT_PROTOTYPE"
    and "set (approachQueue s) \<inter> set OBJECT_PROTOTYPE = {}"
  shows "\<exists>bar s'. generateBar rnd s = Inr (bar, s')
           \<and> length (chords bar)
               = (if Rep_unit01 (rnd (draws s)) < twoChordProbability (settings s) then 2 else 1)
           \<and> settings s' = settings s
           \<and> currentDegree s' \<notin> set OBJECT_PROTOTYPE
           \<and> set (approachQueue s') \<inter> set OBJECT_PROTOTYPE = {}"
proof -
  let ?n = "if Rep_unit01 (rnd (draws s)) < twoChordProbability (settings s) then 2 else 1 :: nat"
  let ?s1 = "s\<lparr>barCount := barCount s + 1, draws := Suc (draws s)\<rparr>"
  have c1: "currentDegree ?s1 \<notin> set OBJECT_PROTOTYPE"
    and q1: "set (approachQueue ?s1) \<inter> set OBJECT_PROTOTYPE = {}"
    using assms(3,4) by simp_all
  from degreeLoop_total [OF c1 q1, of rnd ?n]
  obtain ds s2 where d: "degreeLoop rnd ?n ?s1 = Inr (ds, s2)" and len: "length ds = ?n"
    and st: "settings s2 = settings ?s1"
    and c2: "currentDegree s2 \<notin> set OBJECT_PROTOTYPE"
    and q2: "set (approachQueue s2) \<inter> set OBJECT_PROTOTYPE = {}" by blast
  from st assms have "0 \<le> complexity (settings s2)" "complexity (settings s2) \<le> 1" by simp_all
  from realizeAll_total [OF this, of rnd ds]
  obtain cs s3 where r: "realizeAll rnd s2 ds = Inr (cs, s3)" and lc: "length cs = length ds" by blast
  from realizeAll_result [OF r] obtain n where s3: "s3 = s2\<lparr>draws := n\<rparr>" by blast
  have "generateBar rnd s
          = Inr (\<lparr>barNumber = barCount s3, chords = cs, bar_key = currentKey s3,
                  keyChanged = (key_root (currentKey s) \<noteq> key_root (currentKey s3)
                                \<or> key_mode (currentKey s) \<noteq> key_mode (currentKey s3))\<rparr>,
                 s3\<lparr>history := history s3 @
                    [\<lparr>barNumber = barCount s3, chords = cs, bar_key = currentKey s3,
                      keyChanged = (key_root (currentKey s) \<noteq> key_root (currentKey s3)
                                    \<or> key_mode (currentKey s) \<noteq> key_mode (currentKey s3))\<rparr>]\<rparr>)"
    using d r by (simp add: generateBar_def Let_def Math_random_def)
  with len lc st c2 q2 s3 show ?thesis by simp
qed

text \<open>
  Outside these conditions \<open>generateBar\<close> can throw. With a negative complexity the
  index of the quality can be negative; with a complexity so large that the product
  overflows, and the random number 0, the index is \<open>NaN\<close>; in both cases the quality
  is \<open>undefined\<close> and \<open>formatChordName\<close> throws. With a current degree that names
  an inherited member there is nothing to draw the next degree from.
\<close>

lemma generateBar_negative_complexity:
  "generateBar (always (1/2)) (engineInC\<lparr>settings := (settings engineInC)\<lparr>complexity := - 1\<rparr>\<rparr>)
     = Inl TypeError"
  by code_simp

lemma generateBar_overflowing_complexity:
  "generateBar (always 0)
     (engineInC\<lparr>settings := (settings engineInC)\<lparr>complexity := of_int (2 ^ 1023)\<rparr>\<rparr>)
     = Inl TypeError"
  by code_simp

lemma generateBar_inherited_degree:
  "generateBar (always (1/2)) (engineInC\<lparr>currentDegree := ''constructor''\<rparr>) = Inl TypeError"
  by code_simp

text \<open>
  C8. For every settings configuration in range, that is with \<open>complexity\<close> between 0
  and 1 (the other settings, \<open>twoChordProbability\<close> among them, may have any value),
  \<open>generateBar\<close> returns a bar with 1 or 2 chords; with \<open>twoChordProbability = 0\<close> the
  bar has exactly 1 chord, and with \<open>twoChordProbability = 1\<close> exactly 2. The engine is
  in a state whose current degree and queued degrees are degree tokens: none names a
  member of \<open>Object.prototype\<close>. The state that \<open>generateBar\<close> leaves has the same
  settings and is again of that kind, so the same holds for every further bar.
\<close>

theorem generateBar_one_or_two_chords:
  assumes "0 \<le> complexity (settings s)" and "complexity (settings s) \<le> 1"
    and "currentDegree s \<notin> set OBJECT_PROTOTYPE"
    and "set (approachQueue s) \<inter> set OBJECT_PROTOTYPE = {}"
  shows "(\<exists>bar s'. generateBar rnd s = Inr (bar, s')
            \<and> (length (chords bar) = 1 \<or> length (chords bar) = 2)
            \<and> settings s' = settings s
            \<and> currentDegree s' \<notin> set OBJECT_PROTOTYPE
            \<and> set (approachQueue s') \<inter> set OBJECT_PROTOTYPE = {})
       \<and> (\<exists>bar s'. generateBar rnd (s\<lparr>settings := (settings s)\<lparr>twoChordProbability := 0\<rparr>\<rparr>)
                      = Inr (bar, s')
            \<and> length (chords bar) = 1
            \<and> settings s' = (settings s)\<lparr>twoChordProbability := 0\<rparr>
            \<and> currentDegree s' \<notin> set OBJECT_PROTOTYPE
            \<and> set (approachQueue s') \<inter> set OBJECT_PROTOTYPE = {})
       \<and> (\<exists>bar s'. generateBar rnd (s\<lparr>settings := (settings s)\<lparr>twoChordProbability := 1\<rparr>\<rparr>)
                      = Inr (bar, s')
            \<and> length (chords bar) = 2
            \<and> settings s' = (settings s)\<lparr>twoChordProbability := 1\<rparr>
            \<and> currentDegree s' \<notin> set OBJECT_PROTOTYPE
            \<and> set (approachQueue s') \<inter> set OBJECT_PROTOTYPE = {})"
proof -
  let ?s0 = "s\<lparr>settings := (settings s)\<lparr>twoChordProbability := 0\<rparr>\<rparr>"
  let ?s1 = "s\<lparr>settings := (settings s)\<lparr>twoChordProbability := 1\<rparr>\<rparr>"
  have c0: "0 \<le> complexity (settings ?s0)" "complexity (settings ?s0) \<le> 1"
    "currentDegree ?s0 \<notin> set OBJECT_PROTOTYPE" "set (approachQueue ?s0) \<inter> set OBJECT_PROTOTYPE = {}"
    and c1: "0 \<le> complexity (settings ?s1)" "complexity (settings ?s1) \<le> 1"
    "currentDegree ?s1 \<notin> set OBJECT_PROTOTYPE" "set (approachQueue ?s1) \<inter> set OBJECT_PROTOTYPE = {}"
    using assms by simp_all
  have r: "\<not> Rep_unit01 (rnd (draws s)) < 0" "Rep_unit01 (rnd (draws s)) < 1"
    using Rep_unit01_range [of "rnd (draws s)"] by simp_all
  from generateBar_total [OF assms, of rnd]
  have "\<exists>bar s'. generateBar rnd s = Inr (bar, s')
            \<and> (length (chords bar) = 1 \<or> length (chords bar) = 2)
            \<and> settings s' = settings s
            \<and> currentDegree s' \<notin> set OBJECT_PROTOTYPE
            \<and> set (approachQueue s') \<inter> set OBJECT_PROTOTYPE = {}"
    by (auto split: if_splits)
  moreover from generateBar_total [OF c0, of rnd] r
  have "\<exists>bar s'. generateBar rnd ?s0 = Inr (bar, s') \<and> length (chords bar) = 1
            \<and> settings s' = (settings s)\<lparr>twoChordProbability := 0\<rparr>
            \<and> currentDegree s' \<notin> set OBJECT_PROTOTYPE
            \<and> set (approachQueue s') \<inter> set OBJECT_PROTOTYPE = {}"
    by simp
  moreover from generateBar_total [OF c1, of rnd] r
  have "\<exists>bar s'. generateBar rnd ?s1 = Inr (bar, s') \<and> length (chords bar) = 2
            \<and> settings s' = (settings s)\<lparr>twoChordProbability := 1\<rparr>
            \<and> currentDegree s' \<notin> set OBJECT_PROTOTYPE
            \<and> set (approachQueue s') \<inter> set OBJECT_PROTOTYPE = {}"
    by simp
  ultimately show ?thesis by blast
qed

theorem generateBar_one_or_two_chords_witness:
  "0 \<le> complexity (settings engineInC) \<and> complexity (settings engineInC) \<le> 1
   \<and> currentDegree engineInC \<notin> set OBJECT_PROTOTYPE
   \<and> set (approachQueue engineInC) \<inter> set OBJECT_PROTOTYPE = {}
   \<and> (\<exists>bar s'. generateBar (always (1/2)) engineInC = Inr (bar, s')
          \<and> (length (chords bar) = 1 \<or> length (chords bar) = 2))
   \<and> (\<exists>bar s'. generateBar (always (1/2))
                    (engineInC\<lparr>settings := (settings engineInC)\<lparr>twoChordProbability := 0\<rparr>\<rparr>)
                  = Inr (bar, s')
          \<and> length (chords bar) = 1)
   \<and> (\<exists>bar s'. generateBar (always (1/2))
                    (engineInC\<lparr>settings := (settings engineInC)\<lparr>twoChordProbability := 1\<rparr>\<rparr>)
                  = Inr (bar, s')
          \<and> length (chords bar) = 2)"
proof -
  have c: "0 \<le> complexity (settings engineInC)" "complexity (settings engineInC) \<le> 1"
    by (simp_all add: engineInC_def defaultSettings_def)
  have d: "currentDegree engineInC \<notin> set OBJECT_PROTOTYPE"
    "set (approachQueue engineInC) \<inter> set OBJECT_PROTOTYPE = {}"
    by (simp_all add: engineInC_def OBJECT_PROTOTYPE_def)
  from generateBar_one_or_two_chords [OF c d, of "always (1/2)"]
  have "(\<exists>bar s'. generateBar (always (1/2)) engineInC = Inr (bar, s')
          \<and> (length (chords bar) = 1 \<or> length (chords bar) = 2))
   \<and> (\<exists>bar s'. generateBar (always (1/2))
                    (engineInC\<lparr>settings := (settings engineInC)\<lparr>twoChordProbability := 0\<rparr>\<rparr>)
                  = Inr (bar, s')
          \<and> length (chords bar) = 1)
   \<and> (\<exists>bar s'. generateBar (always (1/2))
                    (engineInC\<lparr>settings := (settings engineInC)\<lparr>twoChordProbability := 1\<rparr>\<rparr>)
                  = Inr (bar, s')
          \<and> length (chords bar) = 2)"
    by blast
  with c d show ?thesis by simp
qed

section \<open>The anti-repetition pass: the claims\<close>

text \<open>
  C3. With fewer than 3 degrees in the window the anti-repetition pass returns the
  distribution as it is. Otherwise each entry of the distribution has its weight
  multiplied by 0.3 if its degree occurs 3 times or more in the window, by 0.7 if it
  occurs exactly twice, and is left alone if it occurs once or not at all. The
  distribution is one of degree tokens: no key of it names a member of
  \<open>Object.prototype\<close> (the count of such a name is not a number, and its entry is
  left alone, see \<open>applyAntiRepetition_map\<close>).

  The window is \<open>recentDegrees\<close>, and it holds the last 8 degrees emitted: a chord
  slot of \<open>generateBar\<close> that returns has pushed the degree it emits; so has a run of
  chord slots, and a call of \<open>generateBar\<close>, for the degrees of the chords of its bar;
  pushing on a window of at most 8 entries leaves the last 8 of the former entries
  followed by the degrees pushed. Hence after any number of bars generated from a state
  with an empty window, as \<open>reset\<close> leaves it, the window is the last 8 of the degrees
  of all their chords (\<open>chord.degree\<close> is the display form of the degree).
\<close>

theorem applyAntiRepetition_penalty:
  assumes "distinct (map fst transitions)"
    and "set (map fst transitions) \<inter> set OBJECT_PROTOTYPE = {}"
  shows "applyAntiRepetition s transitions =
           (if length (recentDegrees s) < 3 then transitions
            else map (\<lambda>(degree, w).
                        (degree, if count_list (recentDegrees s) degree \<ge> 3 then w * 0.3
                                 else if count_list (recentDegrees s) degree = 2 then w * 0.7
                                 else w))
                   transitions)
       \<and> (chordSlot rnd s0 = Inr (d, s1) \<longrightarrow>
            recentDegrees s1 = pushRecent (recentDegrees s0) d)
       \<and> (degreeLoop rnd n s0 = Inr (ds, s2) \<longrightarrow>
            recentDegrees s2 = foldl pushRecent (recentDegrees s0) ds)
       \<and> (generateBar rnd s0 = Inr (bar, s3) \<longrightarrow>
            (\<exists>es. map chord_degree (chords bar) = map formatDegree es
                 \<and> recentDegrees s3 = foldl pushRecent (recentDegrees s0) es))
       \<and> (generateBars rnd m s5 = Inr (bars, s4) \<and> recentDegrees s5 = [] \<longrightarrow>
            (\<exists>es. map chord_degree (concat (map chords bars)) = map formatDegree es
                 \<and> recentDegrees s4 = drop (length es - 8) es))
       \<and> (length window \<le> 8 \<longrightarrow>
            foldl pushRecent window emitted
              = drop (length (window @ emitted) - 8) (window @ emitted))
       \<and> foldl pushRecent [] emitted = drop (length emitted - 8) emitted"
proof -
  have p: "penalty c w = (if c \<ge> 3 then w * 0.3 else if c = 2 then w * 0.7 else w)" for c w
    by (simp add: penalty_def)
  have "map (\<lambda>(k, w). (k, if k \<in> set OBJECT_PROTOTYPE then w
                           else penalty (count_list (recentDegrees s) k) w)) transitions
          = map (\<lambda>(degree, w).
                   (degree, if count_list (recentDegrees s) degree \<ge> 3 then w * 0.3
                            else if count_list (recentDegrees s) degree = 2 then w * 0.7
                            else w)) transitions"
  proof (intro map_cong refl)
    fix e assume "e \<in> set transitions"
    then have "fst e \<notin> set OBJECT_PROTOTYPE" using assms(2) by auto
    then show "(case e of (k, w) \<Rightarrow> (k, if k \<in> set OBJECT_PROTOTYPE then w
                                       else penalty (count_list (recentDegrees s) k) w))
               = (case e of (degree, w) \<Rightarrow>
                   (degree, if count_list (recentDegrees s) degree \<ge> 3 then w * 0.3
                            else if count_list (recentDegrees s) degree = 2 then w * 0.7
                            else w))"
      by (cases e) (simp add: p)
  qed
  then have pass: "applyAntiRepetition s transitions =
           (if length (recentDegrees s) < 3 then transitions
            else map (\<lambda>(degree, w).
                        (degree, if count_list (recentDegrees s) degree \<ge> 3 then w * 0.3
                                 else if count_list (recentDegrees s) degree = 2 then w * 0.7
                                 else w))
                   transitions)"
    by (simp add: applyAntiRepetition_map [OF assms(1)])
  have slot: "chordSlot rnd s0 = Inr (d, s1) \<longrightarrow>
                recentDegrees s1 = pushRecent (recentDegrees s0) d"
    using chordSlot_result [of rnd s0 d s1] by simp
  have loop: "degreeLoop rnd n s0 = Inr (ds, s2) \<longrightarrow>
                recentDegrees s2 = foldl pushRecent (recentDegrees s0) ds"
    using degreeLoop_result [of rnd n s0 ds s2] by simp
  have bar: "generateBar rnd s0 = Inr (bar, s3) \<longrightarrow>
               (\<exists>es. map chord_degree (chords bar) = map formatDegree es
                    \<and> recentDegrees s3 = foldl pushRecent (recentDegrees s0) es)"
    using generateBar_result [of rnd s0 bar s3] by simp
  have bars: "generateBars rnd m s5 = Inr (bars, s4) \<and> recentDegrees s5 = [] \<longrightarrow>
                (\<exists>es. map chord_degree (concat (map chords bars)) = map formatDegree es
                     \<and> recentDegrees s4 = drop (length es - 8) es)"
  proof
    assume a: "generateBars rnd m s5 = Inr (bars, s4) \<and> recentDegrees s5 = []"
    from generateBars_result [of rnd m s5 bars s4] a obtain es where
      "map chord_degree (concat (map chords bars)) = map formatDegree es"
      and "recentDegrees s4 = foldl pushRecent [] es" by auto
    then have "map chord_degree (concat (map chords bars)) = map formatDegree es
               \<and> recentDegrees s4 = drop (length es - 8) es"
      by (simp add: pushRecent_window)
    then show "\<exists>es. map chord_degree (concat (map chords bars)) = map formatDegree es
                 \<and> recentDegrees s4 = drop (length es - 8) es" by blast
  qed
  have last: "length window \<le> 8 \<longrightarrow>
                foldl pushRecent window emitted
                  = drop (length (window @ emitted) - 8) (window @ emitted)"
    using pushRecent_foldl [of window emitted] by simp
  from pass slot loop bar bars last pushRecent_window [of emitted] show ?thesis
    by (intro conjI)
qed

theorem applyAntiRepetition_penalty_witness:
  "distinct (map fst [(''V'', 0.60), (''I'', 0.20), (''ii'', 0.20 :: rat)])
   \<and> set (map fst [(''V'', 0.60), (''I'', 0.20), (''ii'', 0.20 :: rat)]) \<inter> set OBJECT_PROTOTYPE = {}
   \<and> applyAntiRepetition (engineInC\<lparr>recentDegrees := [''V'', ''I'', ''V'', ''ii'', ''V'', ''I'']\<rparr>)
         [(''V'', 0.60), (''I'', 0.20), (''ii'', 0.20)]
       = [(''V'', 0.18), (''I'', 0.14), (''ii'', 0.20)]
   \<and> recentDegrees windowFull = [''I'', ''vi'', ''ii'', ''V'', ''I'', ''IV'', ''ii'', ''V'']
   \<and> (\<exists>s1. chordSlot (always (1/2)) windowFull = Inr (''vi'', s1)
          \<and> recentDegrees s1 = [''vi'', ''ii'', ''V'', ''I'', ''IV'', ''ii'', ''V'', ''vi''])
   \<and> (\<exists>s2. degreeLoop (always (1/2)) 2 windowFull = Inr ([''vi'', ''V''], s2)
          \<and> recentDegrees s2 = [''ii'', ''V'', ''I'', ''IV'', ''ii'', ''V'', ''vi'', ''V''])
   \<and> (\<exists>bar s3. generateBar (always (1/2)) windowFull = Inr (bar, s3)
          \<and> map chord_degree (chords bar) = [''vi'']
          \<and> recentDegrees s3 = [''vi'', ''ii'', ''V'', ''I'', ''IV'', ''ii'', ''V'', ''vi''])
   \<and> recentDegrees engineInC = []
   \<and> (\<exists>bars s4. generateBars (always (1/2)) 2 engineInC = Inr (bars, s4)
          \<and> map chord_degree (concat (map chords bars)) = [''vi'', ''V'']
          \<and> recentDegrees s4 = [''vi'', ''V''])
   \<and> foldl pushRecent [] [''I'', ''vi'', ''ii'', ''V'', ''I'', ''IV'', ''iii'', ''VI'', ''ii'', ''V'']
       = [''ii'', ''V'', ''I'', ''IV'', ''iii'', ''VI'', ''ii'', ''V'']"
proof -
  let ?t = "[(''V'', 0.60), (''I'', 0.20), (''ii'', 0.20 :: rat)]"
  let ?b1 = "\<lparr>barNumber = 1,
              chords = [\<lparr>chord_root = Some ''A'', chord_quality = ''m9'', chord_degree = ''vi'',
                         fullName = \<lparr>name_root = Some ''A'', name_quality = ''-9''\<rparr>\<rparr>],
              bar_key = C_major, keyChanged = False\<rparr>"
  let ?b2 = "\<lparr>barNumber = 2,
              chords = [\<lparr>chord_root = Some ''G'', chord_quality = ''9'', chord_degree = ''V'',
                         fullName = \<lparr>name_root = Some ''G'', name_quality = ''9''\<rparr>\<rparr>],
              bar_key = C_major, keyChanged = False\<rparr>"
  let ?s4 = "engineInC\<lparr>currentDegree := ''V'', previousDegree := Some ''vi'', barCount := 2,
                history := [?b1, ?b2], recentDegrees := [''vi'', ''V''], draws := 10\<rparr>"
  let ?s1 = "windowFull\<lparr>currentDegree := ''vi'', previousDegree := Some ''V'',
                recentDegrees := [''vi'', ''ii'', ''V'', ''I'', ''IV'', ''ii'', ''V'', ''vi''],
                draws := 3\<rparr>"
  let ?s2 = "windowFull\<lparr>currentDegree := ''V'', previousDegree := Some ''vi'',
                recentDegrees := [''ii'', ''V'', ''I'', ''IV'', ''ii'', ''V'', ''vi'', ''V''],
                draws := 6\<rparr>"
  let ?bar = "\<lparr>barNumber = 1,
               chords = [\<lparr>chord_root = Some ''A'', chord_quality = ''m9'', chord_degree = ''vi'',
                          fullName = \<lparr>name_root = Some ''A'', name_quality = ''-9''\<rparr>\<rparr>],
               bar_key = C_major, keyChanged = False\<rparr>"
  let ?s3 = "windowFull\<lparr>currentDegree := ''vi'', previousDegree := Some ''V'', barCount := 1,
                history := [?bar],
                recentDegrees := [''vi'', ''ii'', ''V'', ''I'', ''IV'', ''ii'', ''V'', ''vi''],
                draws := 5\<rparr>"
  have h1: "distinct (map fst ?t)" by simp
  have h2: "set (map fst ?t) \<inter> set OBJECT_PROTOTYPE = {}" by (simp add: OBJECT_PROTOTYPE_def)
  have w: "recentDegrees windowFull = [''I'', ''vi'', ''ii'', ''V'', ''I'', ''IV'', ''ii'', ''V'']"
    by (simp add: windowFull_def)
  have slot: "chordSlot (always (1/2)) windowFull = Inr (''vi'', ?s1)" by code_simp
  have loop: "degreeLoop (always (1/2)) 2 windowFull = Inr ([''vi'', ''V''], ?s2)" by code_simp
  have bar: "generateBar (always (1/2)) windowFull = Inr (?bar, ?s3)" by code_simp
  have bars: "generateBars (always (1/2)) 2 engineInC = Inr ([?b1, ?b2], ?s4)" by code_simp
  have w0: "recentDegrees engineInC = []" by (simp add: engineInC_def)
  note t = applyAntiRepetition_penalty
             [where transitions = ?t
                and s = "engineInC\<lparr>recentDegrees := [''V'', ''I'', ''V'', ''ii'', ''V'', ''I'']\<rparr>"
                and rnd = "always (1/2)" and ?s0.0 = windowFull and d = "''vi''" and ?s1.0 = ?s1
                and n = 2 and ds = "[''vi'', ''V'']" and ?s2.0 = ?s2 and bar = ?bar and ?s3.0 = ?s3
                and m = 2 and ?s5.0 = engineInC and bars = "[?b1, ?b2]" and ?s4.0 = ?s4
                and window = "recentDegrees windowFull"
                and emitted = "[''I'', ''vi'', ''ii'', ''V'', ''I'', ''IV'', ''iii'', ''VI'', ''ii'', ''V'']",
              OF h1 h2]
  from t have c1: "applyAntiRepetition (engineInC\<lparr>recentDegrees := [''V'', ''I'', ''V'', ''ii'', ''V'', ''I'']\<rparr>) ?t
                     = [(''V'', 0.18), (''I'', 0.14), (''ii'', 0.20)]"
    by simp
  from t slot have c2: "recentDegrees ?s1 = pushRecent (recentDegrees windowFull) ''vi''"
    by blast
  from t loop have c3: "recentDegrees ?s2 = foldl pushRecent (recentDegrees windowFull) [''vi'', ''V'']"
    by blast
  from t have c5: "foldl pushRecent [] [''I'', ''vi'', ''ii'', ''V'', ''I'', ''IV'', ''iii'', ''VI'', ''ii'', ''V'']
                     = [''ii'', ''V'', ''I'', ''IV'', ''iii'', ''VI'', ''ii'', ''V'']"
    by simp
  from slot c2 have e2: "\<exists>s1. chordSlot (always (1/2)) windowFull = Inr (''vi'', s1)
          \<and> recentDegrees s1 = [''vi'', ''ii'', ''V'', ''I'', ''IV'', ''ii'', ''V'', ''vi'']"
    by (intro exI [of _ ?s1]) simp
  from loop c3 have e3: "\<exists>s2. degreeLoop (always (1/2)) 2 windowFull = Inr ([''vi'', ''V''], s2)
          \<and> recentDegrees s2 = [''ii'', ''V'', ''I'', ''IV'', ''ii'', ''V'', ''vi'', ''V'']"
    by (intro exI [of _ ?s2]) simp
  from bar have e4: "\<exists>bar s3. generateBar (always (1/2)) windowFull = Inr (bar, s3)
          \<and> map chord_degree (chords bar) = [''vi'']
          \<and> recentDegrees s3 = [''vi'', ''ii'', ''V'', ''I'', ''IV'', ''ii'', ''V'', ''vi'']"
    by (intro exI [of _ ?bar] exI [of _ ?s3]) simp
  note t5 = t [THEN conjunct2, THEN conjunct2, THEN conjunct2, THEN conjunct2, THEN conjunct1]
  from t5 [THEN mp, OF conjI [OF bars w0]] bars have e5: "\<exists>bars s4. generateBars (always (1/2)) 2 engineInC = Inr (bars, s4)
          \<and> map chord_degree (concat (map chords bars)) = [''vi'', ''V'']
          \<and> recentDegrees s4 = [''vi'', ''V'']"
    by (intro exI [of _ "[?b1, ?b2]"] exI [of _ ?s4]) simp
  from h1 h2 c1 w e2 e3 e4 w0 e5 c5 show ?thesis by (intro conjI)
qed

section \<open>The approach queue: the claims\<close>

lemma getNextDegrees_Suc:
  "getNextDegree rnd s = Inr (d, s1) \<Longrightarrow> getNextDegrees rnd n s1 = Inr (ds, s2) \<Longrightarrow>
   getNextDegrees rnd (Suc n) s = Inr (d # ds, s2)"
  by simp

lemma getNextDegrees_queue:
  "approachQueue s = q @ rest \<Longrightarrow>
   getNextDegrees rnd (length q) s = Inr (q, s\<lparr>approachQueue := rest\<rparr>)"
proof (induction q arbitrary: s)
  case Nil
  then have "s\<lparr>approachQueue := rest\<rparr> = s" by simp
  then show ?case by simp
next
  case (Cons d q)
  from Cons.prems have "approachQueue s = d # (q @ rest)" by simp
  from getNextDegree_queued [OF this, of rnd]
  have g: "getNextDegree rnd s = Inr (d, s\<lparr>approachQueue := q @ rest\<rparr>)" .
  have "approachQueue (s\<lparr>approachQueue := q @ rest\<rparr>) = q @ rest" by simp
  from Cons.IH [OF this] g show ?case by simp
qed

lemma degreeLoop_queue:
  "approachQueue s = q @ rest \<Longrightarrow>
   \<exists>s'. degreeLoop rnd (length q) s = Inr (q, s') \<and> approachQueue s' = rest"
proof (induction q arbitrary: s)
  case Nil
  then show ?case by simp
next
  case (Cons d q)
  from Cons.prems have "approachQueue s = d # (q @ rest)" by simp
  from chordSlot_queued [OF this, of rnd]
  obtain s1 where c: "chordSlot rnd s = Inr (d, s1)" and q1: "approachQueue s1 = q @ rest" by blast
  from Cons.IH [OF q1]
  obtain s2 where "degreeLoop rnd (length q) s1 = Inr (q, s2)" "approachQueue s2 = rest" by blast
  with c show ?case by simp
qed

lemma getNextDegrees_triggered:
  assumes "approachQueue s = []" and "Rep_unit01 (rnd (draws s)) < APPROACH_PROBABILITY"
  shows "\<exists>target seq w. (target, seq, w) \<in> set APPROACH_SEQUENCES \<and> target \<noteq> currentDegree s
           \<and> getNextDegrees rnd 3 s = Inr (seq, s\<lparr>draws := Suc (Suc (draws s))\<rparr>)"
proof -
  from getNextDegree_triggered [where rnd = rnd, OF assms]
  obtain target seq w where mem: "(target, seq, w) \<in> set APPROACH_SEQUENCES"
    and ne: "target \<noteq> currentDegree s"
    and g: "getNextDegree rnd s
              = Inr (hd seq, s\<lparr>approachQueue := tl seq, draws := Suc (Suc (draws s))\<rparr>)"
    by blast
  from APPROACH_SEQUENCES_three [OF mem] obtain a b c where seq: "seq = [a, b, c]" by blast
  let ?s1 = "s\<lparr>approachQueue := [b, c], draws := Suc (Suc (draws s))\<rparr>"
  have len: "length [b, c] = 2" by simp
  have same: "(?s1)\<lparr>approachQueue := []\<rparr> = s\<lparr>draws := Suc (Suc (draws s))\<rparr>"
    using assms(1) by simp
  have "approachQueue ?s1 = [b, c] @ []" by simp
  from getNextDegrees_queue [where rnd = rnd, OF this]
  have two: "getNextDegrees rnd 2 ?s1 = Inr ([b, c], s\<lparr>draws := Suc (Suc (draws s))\<rparr>)"
    unfolding len same .
  from g have g': "getNextDegree rnd s = Inr (a, ?s1)" by (simp add: seq)
  have three: "(3 :: nat) = Suc 2" by simp
  have "getNextDegrees rnd 3 s = Inr (seq, s\<lparr>draws := Suc (Suc (draws s))\<rparr>)"
    unfolding three seq by (rule getNextDegrees_Suc [OF g' two])
  with mem ne show ?thesis by blast
qed

lemma maybeModulate_queue:
  "\<exists>s'. maybeModulate rnd s = Inr s' \<and> approachQueue s' = approachQueue s"
  using maybeModulate_shape [of rnd s] by auto

lemma realizeChord_queue:
  "(case realizeChord rnd s degree hint of
      Inl e \<Rightarrow> True
    | Inr (c, s') \<Rightarrow> approachQueue s' = approachQueue s)"
  using realizeChord_result [of rnd s degree hint]
  by (auto split: sum.splits)

text \<open>
  C2. While the approach queue is not empty, \<open>getNextDegree\<close> returns its head and
  removes it, and changes nothing else: no random number is drawn, so neither the
  approach-start attempt nor any lookup, shaping or weighted draw runs. Hence the
  degrees of a queue are returned in full and in order by consecutive calls, and by the
  consecutive chord slots of \<open>generateBar\<close>; a sequence that is triggered on an empty
  queue is one of the three-chord sequences of \<open>APPROACH_SEQUENCES\<close> and is returned
  whole by three consecutive calls. Modulation, a settings update and chord realization
  leave the queue as it is; \<open>reset\<close> empties it.
\<close>

theorem approach_queue_preempts:
  assumes "approachQueue s = q @ rest" and "q \<noteq> []"
    and "approachQueue s0 = []" and "Rep_unit01 (rnd (draws s0)) < APPROACH_PROBABILITY"
  shows "getNextDegree rnd s = Inr (hd q, s\<lparr>approachQueue := tl q @ rest\<rparr>)
       \<and> getNextDegrees rnd (length q) s = Inr (q, s\<lparr>approachQueue := rest\<rparr>)
       \<and> (\<exists>s'. degreeLoop rnd (length q) s = Inr (q, s') \<and> approachQueue s' = rest)
       \<and> (\<exists>target seq w. (target, seq, w) \<in> set APPROACH_SEQUENCES
              \<and> getNextDegrees rnd 3 s0 = Inr (seq, s0\<lparr>draws := Suc (Suc (draws s0))\<rparr>))
       \<and> (\<exists>s'. maybeModulate rnd s = Inr s' \<and> approachQueue s' = approachQueue s)
       \<and> approachQueue (updateSettings s u) = approachQueue s
       \<and> (case realizeChord rnd s degree hint of
             Inl e \<Rightarrow> True
           | Inr (c, s') \<Rightarrow> approachQueue s' = approachQueue s)
       \<and> approachQueue (reset rnd s startingKey) = []"
proof -
  from assms(1,2) have "approachQueue s = hd q # (tl q @ rest)" by (cases q) simp_all
  from getNextDegree_queued [OF this, of rnd]
  have a: "getNextDegree rnd s = Inr (hd q, s\<lparr>approachQueue := tl q @ rest\<rparr>)" .
  from getNextDegrees_triggered [where rnd = rnd, OF assms(3,4)]
  have b: "\<exists>target seq w. (target, seq, w) \<in> set APPROACH_SEQUENCES
              \<and> getNextDegrees rnd 3 s0 = Inr (seq, s0\<lparr>draws := Suc (Suc (draws s0))\<rparr>)"
    by blast
  have r: "approachQueue (reset rnd s startingKey) = []"
    by (cases startingKey) (simp_all add: reset_def randomKey_def Let_def)
  show ?thesis
    using a b r getNextDegrees_queue [where rnd = rnd, OF assms(1)]
      degreeLoop_queue [where rnd = rnd, OF assms(1)]
      maybeModulate_queue [where rnd = rnd and s = s]
      realizeChord_queue [where rnd = rnd and s = s and degree = degree and hint = hint]
    by (simp add: updateSettings_def)
qed

theorem approach_queue_preempts_witness:
  "approachQueue (engineInC\<lparr>approachQueue := [''ii'', ''V'', ''I'']\<rparr>) = [''ii'', ''V''] @ [''I'']
   \<and> [''ii'', ''V''] \<noteq> []
   \<and> approachQueue engineInC = []
   \<and> Rep_unit01 (always (1/10) (draws engineInC)) < APPROACH_PROBABILITY
   \<and> getNextDegree (always (1/10)) (engineInC\<lparr>approachQueue := [''ii'', ''V'', ''I'']\<rparr>)
       = Inr (''ii'', engineInC\<lparr>approachQueue := [''V'', ''I'']\<rparr>)
   \<and> getNextDegrees (always (1/10)) 2 (engineInC\<lparr>approachQueue := [''ii'', ''V'', ''I'']\<rparr>)
       = Inr ([''ii'', ''V''], engineInC\<lparr>approachQueue := [''I'']\<rparr>)
   \<and> (\<exists>s'. degreeLoop (always (1/10)) 2 (engineInC\<lparr>approachQueue := [''ii'', ''V'', ''I'']\<rparr>)
               = Inr ([''ii'', ''V''], s') \<and> approachQueue s' = [''I''])
   \<and> getNextDegrees (always (1/10)) 3 engineInC
       = Inr ([''iii'', ''VI'', ''ii''], engineInC\<lparr>draws := 2\<rparr>)"
proof -
  have h1: "approachQueue (engineInC\<lparr>approachQueue := [''ii'', ''V'', ''I'']\<rparr>) = [''ii'', ''V''] @ [''I'']"
    by simp
  have h2: "[''ii'', ''V''] \<noteq> ([] :: string list)" by simp
  have h3: "approachQueue engineInC = []" by (simp add: engineInC_def)
  have h4: "Rep_unit01 (always (1/10) (draws engineInC)) < APPROACH_PROBABILITY"
    by (simp add: always_def u01.rep_eq APPROACH_PROBABILITY_def)
  have e: "getNextDegrees (always (1/10)) 3 engineInC
             = Inr ([''iii'', ''VI'', ''ii''], engineInC\<lparr>draws := 2\<rparr>)"
    by code_simp
  have len: "length [''ii'', ''V''] = 2" by simp
  note t = approach_queue_preempts [where rnd = "always (1/10)", OF h1 h2 h3 h4, unfolded len]
  from t have c1: "getNextDegree (always (1/10)) (engineInC\<lparr>approachQueue := [''ii'', ''V'', ''I'']\<rparr>)
                     = Inr (''ii'', engineInC\<lparr>approachQueue := [''V'', ''I'']\<rparr>)"
    by simp
  from t have c2: "getNextDegrees (always (1/10)) 2 (engineInC\<lparr>approachQueue := [''ii'', ''V'', ''I'']\<rparr>)
                     = Inr ([''ii'', ''V''], engineInC\<lparr>approachQueue := [''I'']\<rparr>)"
    by simp
  from t have c3: "\<exists>s'. degreeLoop (always (1/10)) 2 (engineInC\<lparr>approachQueue := [''ii'', ''V'', ''I'']\<rparr>)
                          = Inr ([''ii'', ''V''], s') \<and> approachQueue s' = [''I'']"
    by (rule conjunct2 [THEN conjunct2, THEN conjunct1])
  from c1 c2 c3 h1 h2 h3 h4 e show ?thesis
    by simp
qed

section \<open>The raw distribution: the claims\<close>

text \<open>
  The override table is keyed by the string \<open>previous \<rightarrow> current\<close>. No degree of a
  key contains the first byte of the separator, so a joined key determines its pair.
\<close>

lemma join_eq:
  assumes "x \<notin> set k1" and "x \<notin> set k2" and "x \<notin> set r"
  shows "(p @ x # r @ c = k1 @ x # r @ k2) = (p = k1 \<and> c = k2)"
proof
  assume eq: "p @ x # r @ c = k1 @ x # r @ k2"
  then consider us where "p = k1 @ us" "us @ x # r @ c = x # r @ k2"
    | us where "p @ us = k1" "x # r @ c = us @ x # r @ k2"
    by (auto simp: append_eq_append_conv2)
  then show "p = k1 \<and> c = k2"
  proof cases
    case 1
    show ?thesis
    proof (cases us)
      case Nil
      with 1 show ?thesis by simp
    next
      case (Cons u us')
      with 1 have "us' @ x # r @ c = r @ k2" by simp
      then have "x \<in> set (r @ k2)" by (metis in_set_conv_decomp)
      with assms show ?thesis by simp
    qed
  next
    case 2
    show ?thesis
    proof (cases us)
      case Nil
      with 2 show ?thesis by simp
    next
      case (Cons u us')
      with 2 have "k1 = p @ x # us'" by simp
      with assms show ?thesis by simp
    qed
  qed
next
  assume "p = k1 \<and> c = k2"
  then show "p @ x # r @ c = k1 @ x # r @ k2" by simp
qed

lemma map_of_joined:
  assumes "\<forall>((k1, k2), d) \<in> set ps. x \<notin> set k1 \<and> x \<notin> set k2" and "x \<notin> set r"
  shows "map_of (map (\<lambda>((k1, k2), d). (k1 @ x # r @ k2, d)) ps) (p @ x # r @ c) = map_of ps (p, c)"
  using assms(1)
proof (induction ps)
  case Nil
  then show ?case by simp
next
  case (Cons e ps)
  obtain k1 k2 d where e: "e = ((k1, k2), d)" by (metis prod.collapse)
  from Cons.prems have "x \<notin> set k1" "x \<notin> set k2" by (simp_all add: e)
  from join_eq [OF this assms(2)] Cons show ?case by (simp add: e)
qed

lemma overrides_by_pair:
  "map_of SECOND_ORDER_OVERRIDES (p @ arrow @ c) = overrideEntry p c"
proof -
  let ?ps = "zip OVERRIDE_PAIRS (map snd SECOND_ORDER_OVERRIDES)"
  have tbl: "SECOND_ORDER_OVERRIDES
               = map (\<lambda>((k1, k2), d). (k1 @ CHR 0xE2 # [CHR 0x86, CHR 0x92] @ k2, d)) ?ps"
    by (simp add: SECOND_ORDER_OVERRIDES_def OVERRIDE_PAIRS_def arrow_def)
  have ascii: "\<forall>((k1, k2), d) \<in> set ?ps. CHR 0xE2 \<notin> set k1 \<and> CHR 0xE2 \<notin> set k2"
    by (simp add: SECOND_ORDER_OVERRIDES_def OVERRIDE_PAIRS_def)
  have "map_of (map (\<lambda>((k1, k2), d). (k1 @ CHR 0xE2 # [CHR 0x86, CHR 0x92] @ k2, d)) ?ps)
          (p @ CHR 0xE2 # [CHR 0x86, CHR 0x92] @ c) = map_of ?ps (p, c)"
    by (rule map_of_joined [OF ascii]) simp
  then show ?thesis
    unfolding tbl [symmetric] overrideEntry_def by (simp add: arrow_def)
qed

lemma overrideEntry_empty: "overrideEntry [] c = None"
  by (simp add: overrideEntry_def OVERRIDE_PAIRS_def SECOND_ORDER_OVERRIDES_def)

lemma secondOrder_by_pair:
  "secondOrder s = (case previousDegree s of None \<Rightarrow> None
                    | Some p \<Rightarrow> overrideEntry p (currentDegree s))"
  by (cases "previousDegree s") (simp_all add: secondOrder_def overrides_by_pair overrideEntry_empty)

lemma rawTransitions_spec:
  assumes "currentDegree s \<notin> set OBJECT_PROTOTYPE"
  shows "rawTransitions s
     = spec_rawDistribution (previousDegree s) (currentDegree s) (key_mode (currentKey s))"
  by (simp add: rawTransitions_def secondOrder_by_pair spec_rawDistribution_def
      firstOrder_plain [OF assms] tonic_row cong: option.case_cong)

text \<open>The joined key of the override table names no inherited member.\<close>

lemma override_key_plain: "p @ arrow @ c \<notin> set OBJECT_PROTOTYPE"
proof -
  have "CHR 0xE2 \<in> set (p @ arrow @ c)" by (simp add: arrow_def)
  moreover have "list_all (\<lambda>k. CHR 0xE2 \<notin> set k) OBJECT_PROTOTYPE" by code_simp
  ultimately show ?thesis by (auto simp: list_all_iff)
qed

text \<open>
  C1. In a state with an empty approach queue in which no approach sequence is started
  (the draw against \<open>APPROACH_PROBABILITY\<close> fails), \<open>getNextDegree\<close> shapes and draws
  from the raw distribution of the rule: the override entry of the pair (previous
  degree, current degree) alone if the table has one; otherwise the entry of the
  current degree in the minor table if the mode is minor, else in the major table;
  failing that its entry in the major table; failing that the major table's entry for
  \<open>I\<close>. A lookup of the joined key is a lookup of the pair. The current degree is a
  degree token: it names no member of \<open>Object.prototype\<close> (for such a name the
  lookup finds the inherited member, see \<open>getNextDegree_inherited\<close>). The last
  fallback is met in play: \<open>v\<close>, a degree of the minor table only, is the current
  degree in a major key after a parallel modulation that keeps the degree.
\<close>

theorem getNextDegree_raw_distribution:
  assumes "approachQueue s = []" and "\<not> Rep_unit01 (rnd (draws s)) < APPROACH_PROBABILITY"
    and "currentDegree s \<notin> set OBJECT_PROTOTYPE"
  shows "rawTransitions s
           = spec_rawDistribution (previousDegree s) (currentDegree s) (key_mode (currentKey s))
       \<and> getNextDegree rnd s
           = drawShaped rnd (s\<lparr>draws := Suc (draws s)\<rparr>)
               (spec_rawDistribution (previousDegree s) (currentDegree s) (key_mode (currentKey s)))
       \<and> map_of SECOND_ORDER_OVERRIDES (p @ arrow @ c) = overrideEntry p c"
  using getNextDegree_plain [where rnd = rnd, OF assms(1,2)]
  by (simp add: rawTransitions_spec [OF assms(3)] overrides_by_pair)


theorem getNextDegree_raw_distribution_witness:
  "approachQueue (engineInC\<lparr>previousDegree := Some ''ii'', currentDegree := ''V''\<rparr>) = []
   \<and> \<not> Rep_unit01 (always (1/2)
          (draws (engineInC\<lparr>previousDegree := Some ''ii'', currentDegree := ''V''\<rparr>)))
        < APPROACH_PROBABILITY
   \<and> rawTransitions (engineInC\<lparr>previousDegree := Some ''ii'', currentDegree := ''V''\<rparr>)
       = [(''I'', 0.75), (''vi'', 0.10), (''bVI'', 0.05), (''IV'', 0.04), (''iii'', 0.03),
          (''bVII'', 0.03)]
   \<and> getNextDegree (always (1/2)) (engineInC\<lparr>previousDegree := Some ''ii'', currentDegree := ''V''\<rparr>)
       = Inr (''I'', engineInC\<lparr>previousDegree := Some ''ii'', currentDegree := ''V'', draws := 2\<rparr>)
   \<and> rawTransitions (engineInC\<lparr>currentKey := \<lparr>key_root = ''A'', key_mode = ''minor''\<rparr>,
                                 currentDegree := ''v''\<rparr>)
       = [(''bVI'', 0.25), (''bVII'', 0.25), (''I'', 0.20), (''iv'', 0.15), (''bIII'', 0.10),
          (''v'', 0.05)]
   \<and> rawTransitions (engineInC\<lparr>currentKey := \<lparr>key_root = ''A'', key_mode = ''minor''\<rparr>,
                                 currentDegree := ''#IV''\<rparr>)
       = [(''V'', 0.60), (''I'', 0.20), (''ii'', 0.20)]
   \<and> currentDegree (engineInC\<lparr>previousDegree := Some ''I'', currentDegree := ''v''\<rparr>) \<notin> set OBJECT_PROTOTYPE
   \<and> rawTransitions (engineInC\<lparr>previousDegree := Some ''I'', currentDegree := ''v''\<rparr>)
       = [(''ii'', 0.22), (''IV'', 0.18), (''V'', 0.12), (''vi'', 0.15), (''iii'', 0.10),
          (''bVII'', 0.05), (''bIII'', 0.04), (''bVI'', 0.04), (''II'', 0.05), (''I'', 0.05)]"
proof -
  let ?a = "engineInC\<lparr>previousDegree := Some ''ii'', currentDegree := ''V''\<rparr>"
  let ?b = "engineInC\<lparr>currentKey := \<lparr>key_root = ''A'', key_mode = ''minor''\<rparr>, currentDegree := ''v''\<rparr>"
  let ?c = "engineInC\<lparr>currentKey := \<lparr>key_root = ''A'', key_mode = ''minor''\<rparr>, currentDegree := ''#IV''\<rparr>"
  let ?d = "engineInC\<lparr>previousDegree := Some ''I'', currentDegree := ''v''\<rparr>"
  have q: "approachQueue ?a = []" "approachQueue ?b = []" "approachQueue ?c = []" "approachQueue ?d = []"
    by (simp_all add: engineInC_def)
  have r: "\<not> Rep_unit01 (always (1/2) (draws ?a)) < APPROACH_PROBABILITY"
    "\<not> Rep_unit01 (always (1/2) (draws ?b)) < APPROACH_PROBABILITY"
    "\<not> Rep_unit01 (always (1/2) (draws ?c)) < APPROACH_PROBABILITY"
    "\<not> Rep_unit01 (always (1/2) (draws ?d)) < APPROACH_PROBABILITY"
    by (simp_all add: always_def u01.rep_eq APPROACH_PROBABILITY_def)
  have p: "currentDegree ?a \<notin> set OBJECT_PROTOTYPE" "currentDegree ?b \<notin> set OBJECT_PROTOTYPE"
    "currentDegree ?c \<notin> set OBJECT_PROTOTYPE" "currentDegree ?d \<notin> set OBJECT_PROTOTYPE"
    by (simp_all add: OBJECT_PROTOTYPE_def)
  have spec: "spec_rawDistribution (Some ''ii'') ''V'' ''major''
                = [(''I'', 0.75), (''vi'', 0.10), (''bVI'', 0.05), (''IV'', 0.04), (''iii'', 0.03),
                   (''bVII'', 0.03)]"
    "spec_rawDistribution None ''v'' ''minor''
       = [(''bVI'', 0.25), (''bVII'', 0.25), (''I'', 0.20), (''iv'', 0.15), (''bIII'', 0.10),
          (''v'', 0.05)]"
    "spec_rawDistribution None ''#IV'' ''minor'' = [(''V'', 0.60), (''I'', 0.20), (''ii'', 0.20)]"
    "spec_rawDistribution (Some ''I'') ''v'' ''major''
       = [(''ii'', 0.22), (''IV'', 0.18), (''V'', 0.12), (''vi'', 0.15), (''iii'', 0.10),
          (''bVII'', 0.05), (''bIII'', 0.04), (''bVI'', 0.04), (''II'', 0.05), (''I'', 0.05)]"
    by code_simp+
  have fields: "previousDegree ?a = Some ''ii''" "currentDegree ?a = ''V''"
    "key_mode (currentKey ?a) = ''major''"
    "previousDegree ?b = None" "currentDegree ?b = ''v''" "key_mode (currentKey ?b) = ''minor''"
    "previousDegree ?c = None" "currentDegree ?c = ''#IV''" "key_mode (currentKey ?c) = ''minor''"
    "previousDegree ?d = Some ''I''" "currentDegree ?d = ''v''" "key_mode (currentKey ?d) = ''major''"
    by (simp_all add: engineInC_def C_major_def)
  note a = getNextDegree_raw_distribution [where rnd = "always (1/2)", OF q(1) r(1) p(1), unfolded fields spec]
  note b = getNextDegree_raw_distribution [where rnd = "always (1/2)", OF q(2) r(2) p(2), unfolded fields spec]
  note c = getNextDegree_raw_distribution [where rnd = "always (1/2)", OF q(3) r(3) p(3), unfolded fields spec]
  note d = getNextDegree_raw_distribution [where rnd = "always (1/2)", OF q(4) r(4) p(4), unfolded fields spec]
  have draw: "drawShaped (always (1/2)) (?a\<lparr>draws := Suc (draws ?a)\<rparr>)
                [(''I'', 0.75), (''vi'', 0.10), (''bVI'', 0.05), (''IV'', 0.04), (''iii'', 0.03),
                 (''bVII'', 0.03)]
              = Inr (''I'', ?a\<lparr>draws := 2\<rparr>)"
    by code_simp
  from a have a1: "rawTransitions ?a = [(''I'', 0.75), (''vi'', 0.10), (''bVI'', 0.05), (''IV'', 0.04), (''iii'', 0.03),
                   (''bVII'', 0.03)]" by (rule conjunct1)
  from a draw have a2: "getNextDegree (always (1/2)) ?a = Inr (''I'', ?a\<lparr>draws := 2\<rparr>)"
    by simp
  from b have b1: "rawTransitions ?b = [(''bVI'', 0.25), (''bVII'', 0.25), (''I'', 0.20), (''iv'', 0.15), (''bIII'', 0.10),
          (''v'', 0.05)]" by (rule conjunct1)
  from c have c1: "rawTransitions ?c = [(''V'', 0.60), (''I'', 0.20), (''ii'', 0.20)]" by (rule conjunct1)
  from d have d1: "rawTransitions ?d = [(''ii'', 0.22), (''IV'', 0.18), (''V'', 0.12), (''vi'', 0.15), (''iii'', 0.10),
          (''bVII'', 0.05), (''bIII'', 0.04), (''bVI'', 0.04), (''II'', 0.05), (''I'', 0.05)]" by (rule conjunct1)
  from q(1) r(1) p(4) a1 a2 b1 c1 d1 show ?thesis by simp
qed

section \<open>Construction: the claims\<close>




section \<open>Mutation: the claims\<close>

text \<open>
  On the store, a pass that writes only to an object that it has allocated leaves every
  object that existed before as it was: the store it returns begins with the store it
  was given.
\<close>

lemma foldl_cell:
  "a < length h \<Longrightarrow>
   foldl (\<lambda>h' e. h'[a := F (h' ! a) e]) h es = h[a := foldl F (h ! a) es]"
proof (induction es arbitrary: h)
  case Nil
  then show ?case by simp
next
  case (Cons e es)
  then have "a < length (h[a := F (h ! a) e])" by simp
  from Cons.IH [OF this] Cons.prems show ?case by simp
qed

lemma foldl_cell_pair:
  "a < length h \<Longrightarrow>
   foldl (\<lambda>h' (d, p). h'[a := G (h' ! a) d p]) h es
     = h[a := foldl (\<lambda>obj (d, p). G obj d p) (h ! a) es]"
  using foldl_cell [of a h "\<lambda>obj (d, p). G obj d p" es]
  by (simp add: split_def)

lemma store_adjust_result:
  "store_adjustForAdventurousness s h t
     = (length h, h @ [adjustForAdventurousness s ((h @ [[]]) ! t)])"
proof -
  have cell: "foldl (\<lambda>h' (degree, prob). h'[length h := js_set (h' ! length h) degree (W prob)])
                (h @ [[]]) es
              = h @ [foldl (\<lambda>adjusted (degree, prob). js_set adjusted degree (W prob)) [] es]"
    for W :: "rat \<Rightarrow> rat" and es :: dist
    using foldl_cell_pair [of "length h" "h @ [[]]" "\<lambda>obj d p. js_set obj d (W p)" es]
    by simp
  show ?thesis
    unfolding store_adjustForAdventurousness_def adjustForAdventurousness_def alloc_def Let_def
      prod.case cell ..
qed

lemma store_adjust_frame:
  "fst (store_adjustForAdventurousness s h t) = length h"
  "take (length h) (snd (store_adjustForAdventurousness s h t)) = h"
  by (simp_all add: store_adjust_result)

lemma store_adjust_refines:
  "t < length h \<Longrightarrow>
   snd (store_adjustForAdventurousness s h t) ! fst (store_adjustForAdventurousness s h t)
     = adjustForAdventurousness s (h ! t)"
  by (simp add: store_adjust_result nth_append)

lemma store_antirep_result:
  "store_applyAntiRepetition s h t
     = (if length (recentDegrees s) < 3 then (t, h)
        else (length h, h @ [foldl penalize (h ! t) (countRecent (recentDegrees s))]))"
proof -
  have "foldl (\<lambda>h' e. h'[length h := penalize (h' ! length h) e]) (h @ [h ! t]) cs
          = (h @ [h ! t])[length h := foldl penalize ((h @ [h ! t]) ! length h) cs]" for cs
    by (rule foldl_cell) simp
  then show ?thesis
    by (simp add: store_applyAntiRepetition_def alloc_def Let_def)
qed

lemma store_antirep_frame:
  "take (length h) (snd (store_applyAntiRepetition s h t)) = h"
  by (simp add: store_antirep_result)

lemma store_antirep_refines:
  "t < length h \<Longrightarrow>
   snd (store_applyAntiRepetition s h t) ! fst (store_applyAntiRepetition s h t)
     = applyAntiRepetition s (h ! t)"
  by (simp add: store_antirep_result applyAntiRepetition_def)

lemma store_antirep_grows:
  "length h \<le> length (snd (store_applyAntiRepetition s h t))"
  "t < length h \<Longrightarrow> fst (store_applyAntiRepetition s h t) < length (snd (store_applyAntiRepetition s h t))"
  by (simp_all add: store_antirep_result)


lemma refs_from_Cons: "refs_from b (e # tbl) = (fst e, b) # refs_from (Suc b) tbl"
  by (simp add: refs_from_def upt_conv_Cons del: upt_Suc)

lemma map_of_refs_from:
  "map_option (\<lambda>r. (pre @ map snd tbl @ post) ! r) (map_of (refs_from (length pre) tbl) k)
     = map_of tbl k"
proof (induction tbl arbitrary: pre)
  case Nil
  then show ?case by (simp add: refs_from_def)
next
  case (Cons e tbl)
  obtain k0 d0 where e: "e = (k0, d0)" by (cases e)
  from Cons.IH [of "pre @ [d0]"] show ?case
    by (simp add: refs_from_Cons e)
qed

lemma static_lookups:
  "map_option (\<lambda>r. (STATIC_STORE @ h) ! r) (map_of DEGREE_TRANSITIONS_refs k)
     = map_of DEGREE_TRANSITIONS k"
  "map_option (\<lambda>r. (STATIC_STORE @ h) ! r) (map_of MINOR_DEGREE_TRANSITIONS_refs k)
     = map_of MINOR_DEGREE_TRANSITIONS k"
  "map_option (\<lambda>r. (STATIC_STORE @ h) ! r) (map_of SECOND_ORDER_OVERRIDES_refs k)
     = map_of SECOND_ORDER_OVERRIDES k"
proof -
  show "map_option (\<lambda>r. (STATIC_STORE @ h) ! r) (map_of DEGREE_TRANSITIONS_refs k)
          = map_of DEGREE_TRANSITIONS k"
    using map_of_refs_from [of "[]" DEGREE_TRANSITIONS
        "map snd MINOR_DEGREE_TRANSITIONS @ map snd SECOND_ORDER_OVERRIDES @ [[]] @ h" k]
    by (simp add: STATIC_STORE_def DEGREE_TRANSITIONS_refs_def)
  show "map_option (\<lambda>r. (STATIC_STORE @ h) ! r) (map_of MINOR_DEGREE_TRANSITIONS_refs k)
          = map_of MINOR_DEGREE_TRANSITIONS k"
    using map_of_refs_from [of "map snd DEGREE_TRANSITIONS" MINOR_DEGREE_TRANSITIONS
        "map snd SECOND_ORDER_OVERRIDES @ [[]] @ h" k]
    by (simp add: STATIC_STORE_def MINOR_DEGREE_TRANSITIONS_refs_def)
  show "map_option (\<lambda>r. (STATIC_STORE @ h) ! r) (map_of SECOND_ORDER_OVERRIDES_refs k)
          = map_of SECOND_ORDER_OVERRIDES k"
    using map_of_refs_from [of "map snd DEGREE_TRANSITIONS @ map snd MINOR_DEGREE_TRANSITIONS"
        SECOND_ORDER_OVERRIDES "[[]] @ h" k]
    by (simp add: STATIC_STORE_def SECOND_ORDER_OVERRIDES_refs_def)
qed

lemma store_secondOrder_refines:
  "map_option (\<lambda>r. (STATIC_STORE @ h) ! r) (store_secondOrder s) = secondOrder s"
  by (cases "previousDegree s")
    (simp_all add: store_secondOrder_def secondOrder_def static_lookups)

lemma tonic_ref: "map_of DEGREE_TRANSITIONS_refs ''I'' = Some 0"
  by (simp add: DEGREE_TRANSITIONS_refs_def refs_from_def DEGREE_TRANSITIONS_def upt_conv_Cons)

lemma inherited_cell: "(STATIC_STORE @ h) ! INHERITED_REF = []"
  by (simp add: STATIC_STORE_def INHERITED_REF_def nth_append)

lemma js_get_refines:
  assumes "map_option f (map_of refs k) = map_of tbl k"
  shows "map_lookup f (js_get refs k) = js_get tbl k"
  unfolding js_get_def assms [symmetric] by (cases "map_of refs k") simp_all

lemma store_firstOrder_refines: "(STATIC_STORE @ h) ! store_firstOrder s = firstOrder s"
proof -
  let ?f = "\<lambda>r. (STATIC_STORE @ h) ! r"
  have tonic: "?f (the (map_of DEGREE_TRANSITIONS_refs ''I'')) = the (map_of DEGREE_TRANSITIONS ''I'')"
    using static_lookups(1) [of h "''I''"] by (simp add: tonic_ref) (metis option.sel)
  have chain: "?f (case x of Own t \<Rightarrow> t | Inherited \<Rightarrow> INHERITED_REF | Missing \<Rightarrow> r)
                 = (case map_lookup ?f x of Own t \<Rightarrow> t | Inherited \<Rightarrow> [] | Missing \<Rightarrow> ?f r)"
    for x r
    by (cases x) (simp_all add: inherited_cell)
  note major = js_get_refines [where f = ?f, OF static_lookups(1) [of h "currentDegree s"]]
  note minor = js_get_refines [where f = ?f, OF static_lookups(2) [of h "currentDegree s"]]
  show ?thesis
    unfolding store_firstOrder_def firstOrder_def Let_def chain major tonic
    by (simp add: chain major minor tonic)
qed

lemma store_shaped_result:
  "store_shapedTransitions s (STATIC_STORE @ h)
     = (let t1 = adjustForAdventurousness s (rawTransitions s);
            h2 = STATIC_STORE @ h @ [rawTransitions s, t1]
        in if length (recentDegrees s) < 3 then (Suc (length (STATIC_STORE @ h)), h2)
           else (Suc (Suc (length (STATIC_STORE @ h))), h2 @ [applyAntiRepetition s t1]))"
proof -
  let ?H = "STATIC_STORE @ h"
  have raw: "(case store_secondOrder s of Some r \<Rightarrow> alloc ?H (?H ! r)
              | None \<Rightarrow> alloc ?H (?H ! store_firstOrder s))
             = (length ?H, ?H @ [rawTransitions s])"
    using store_secondOrder_refines [of h s, symmetric] store_firstOrder_refines [of h s]
    by (cases "store_secondOrder s") (auto simp: alloc_def rawTransitions_def)
  have nth: "((?H @ [rawTransitions s]) @ [[]]) ! length ?H = rawTransitions s"
    by (simp add: nth_append)
  show ?thesis
    unfolding store_shapedTransitions_def raw Let_def prod.case store_adjust_result nth
      store_antirep_result
    by (simp add: nth_append applyAntiRepetition_def)
qed


lemma peek_is_raw_maximum: "peekLikelyNextDegree s = getMostProbable (rawTransitions s)"
  by (cases "secondOrder s") (simp_all add: peekLikelyNextDegree_def rawTransitions_def)

lemma store_peek_result:
  "store_peekLikelyNextDegree (s, STATIC_STORE @ h) = (peekLikelyNextDegree s, s, STATIC_STORE @ h)"
  using store_secondOrder_refines [of h s, symmetric] store_firstOrder_refines [of h s]
  by (cases "store_secondOrder s") (auto simp: store_peekLikelyNextDegree_def peekLikelyNextDegree_def)

lemma rawTransitions_shaper_inputs:
  "rawTransitions (s\<lparr>settings := st, recentDegrees := rs\<rparr>) = rawTransitions s"
proof -
  have "secondOrder (s\<lparr>settings := st, recentDegrees := rs\<rparr>) = secondOrder s"
    by (cases "previousDegree s") (simp_all add: secondOrder_def)
  moreover have "firstOrder (s\<lparr>settings := st, recentDegrees := rs\<rparr>) = firstOrder s"
    by (simp add: firstOrder_def cong: lookup.case_cong)
  ultimately show ?thesis by (simp add: rawTransitions_def cong: option.case_cong)
qed

text \<open>
  C9. Neither pass of the shaper mutates the distribution it is given, nor any other
  object that exists when it runs. \<open>adjustForAdventurousness\<close> returns a new object;
  \<open>applyAntiRepetition\<close> returns its argument untouched or a new object; in both cases
  the store they leave begins with the store they found, and the object returned holds
  the distribution that the pass computes from its input. The same holds for steps 3
  to 6 of \<open>getNextDegree\<close> run on a store that holds the static tables: the tables
  are unchanged. \<open>peekLikelyNextDegree\<close> leaves engine and store as they are and
  returns the entry of greatest weight of the raw distribution, whatever the settings
  and the recent-degree window are: no shaping pass is applied to it.
\<close>

theorem shaper_and_lookahead_mutate_nothing:
  assumes "transitions < length h"
  shows "fst (store_adjustForAdventurousness s h transitions) = length h
       \<and> take (length h) (snd (store_adjustForAdventurousness s h transitions)) = h
       \<and> snd (store_adjustForAdventurousness s h transitions)
             ! fst (store_adjustForAdventurousness s h transitions)
           = adjustForAdventurousness s (h ! transitions)
       \<and> take (length h) (snd (store_applyAntiRepetition s h transitions)) = h
       \<and> snd (store_applyAntiRepetition s h transitions)
             ! fst (store_applyAntiRepetition s h transitions)
           = applyAntiRepetition s (h ! transitions)
       \<and> take (length (STATIC_STORE @ h')) (snd (store_shapedTransitions s (STATIC_STORE @ h')))
           = STATIC_STORE @ h'
       \<and> snd (store_shapedTransitions s (STATIC_STORE @ h'))
             ! fst (store_shapedTransitions s (STATIC_STORE @ h'))
           = applyAntiRepetition s (adjustForAdventurousness s (rawTransitions s))
       \<and> store_peekLikelyNextDegree (s, STATIC_STORE @ h')
           = (peekLikelyNextDegree s, s, STATIC_STORE @ h')
       \<and> peekLikelyNextDegree s = getMostProbable (rawTransitions s)
       \<and> peekLikelyNextDegree (s\<lparr>settings := st, recentDegrees := rs\<rparr>) = peekLikelyNextDegree s"
proof -
  have shaped: "take (length (STATIC_STORE @ h')) (snd (store_shapedTransitions s (STATIC_STORE @ h')))
                  = STATIC_STORE @ h'"
    "snd (store_shapedTransitions s (STATIC_STORE @ h'))
       ! fst (store_shapedTransitions s (STATIC_STORE @ h'))
     = applyAntiRepetition s (adjustForAdventurousness s (rawTransitions s))"
    by (simp_all add: store_shaped_result Let_def nth_append applyAntiRepetition_def)
  have indep: "peekLikelyNextDegree (s\<lparr>settings := st, recentDegrees := rs\<rparr>) = peekLikelyNextDegree s"
    by (simp only: peek_is_raw_maximum rawTransitions_shaper_inputs)
  show ?thesis
    using store_adjust_frame [where s = s and h = h and t = transitions]
      store_adjust_refines [OF assms, where s = s]
      store_antirep_frame [where s = s and h = h and t = transitions]
      store_antirep_refines [OF assms, where s = s]
      shaped indep store_peek_result [where s = s and h = h'] peek_is_raw_maximum [where s = s]
    by simp
qed

theorem shaper_and_lookahead_mutate_nothing_witness:
  "15 < length STATIC_STORE
   \<and> STATIC_STORE ! 15 = [(''V'', 0.60), (''I'', 0.20), (''ii'', 0.20)]
   \<and> take (length STATIC_STORE)
        (snd (store_adjustForAdventurousness
                (engineInC\<lparr>recentDegrees := [''V'', ''I'', ''V'', ''ii'', ''V'', ''I'']\<rparr>)
                STATIC_STORE 15)) = STATIC_STORE
   \<and> snd (store_adjustForAdventurousness
             (engineInC\<lparr>recentDegrees := [''V'', ''I'', ''V'', ''ii'', ''V'', ''I'']\<rparr>) STATIC_STORE 15)
         ! fst (store_adjustForAdventurousness
                  (engineInC\<lparr>recentDegrees := [''V'', ''I'', ''V'', ''ii'', ''V'', ''I'']\<rparr>)
                  STATIC_STORE 15)
       = [(''V'', 0.52), (''I'', 0.24), (''ii'', 0.24)]
   \<and> take (length STATIC_STORE)
        (snd (store_applyAntiRepetition
                (engineInC\<lparr>recentDegrees := [''V'', ''I'', ''V'', ''ii'', ''V'', ''I'']\<rparr>)
                STATIC_STORE 15)) = STATIC_STORE
   \<and> snd (store_applyAntiRepetition
             (engineInC\<lparr>recentDegrees := [''V'', ''I'', ''V'', ''ii'', ''V'', ''I'']\<rparr>) STATIC_STORE 15)
         ! fst (store_applyAntiRepetition
                  (engineInC\<lparr>recentDegrees := [''V'', ''I'', ''V'', ''ii'', ''V'', ''I'']\<rparr>)
                  STATIC_STORE 15)
       = [(''V'', 0.18), (''I'', 0.14), (''ii'', 0.20)]
   \<and> store_peekLikelyNextDegree
         (engineInC\<lparr>recentDegrees := [''V'', ''I'', ''V'', ''ii'', ''V'', ''I'']\<rparr>, STATIC_STORE)
       = (''ii'', engineInC\<lparr>recentDegrees := [''V'', ''I'', ''V'', ''ii'', ''V'', ''I'']\<rparr>,
          STATIC_STORE)"
proof -
  let ?s = "engineInC\<lparr>recentDegrees := [''V'', ''I'', ''V'', ''ii'', ''V'', ''I'']\<rparr>"
  have a: "15 < length STATIC_STORE" by code_simp
  have row: "STATIC_STORE ! 15 = [(''V'', 0.60), (''I'', 0.20), (''ii'', 0.20)]" by code_simp
  have adj: "adjustForAdventurousness ?s [(''V'', 0.60), (''I'', 0.20), (''ii'', 0.20)]
               = [(''V'', 0.52), (''I'', 0.24), (''ii'', 0.24)]" by code_simp
  have pen: "applyAntiRepetition ?s [(''V'', 0.60), (''I'', 0.20), (''ii'', 0.20)]
               = [(''V'', 0.18), (''I'', 0.14), (''ii'', 0.20)]" by code_simp
  have peek: "peekLikelyNextDegree ?s = ''ii''" by code_simp
  note t = shaper_and_lookahead_mutate_nothing [OF a, where s = "?s" and h' = "[]", unfolded row adj pen peek]
  from t have t2: "take (length STATIC_STORE) (snd (store_adjustForAdventurousness ?s STATIC_STORE 15)) = STATIC_STORE"
    by (rule conjunct2 [THEN conjunct1])
  from t have t3: "snd (store_adjustForAdventurousness ?s STATIC_STORE 15)
                     ! fst (store_adjustForAdventurousness ?s STATIC_STORE 15)
                   = [(''V'', 0.52), (''I'', 0.24), (''ii'', 0.24)]"
    by (rule conjunct2 [THEN conjunct2, THEN conjunct1])
  from t have t4: "take (length STATIC_STORE) (snd (store_applyAntiRepetition ?s STATIC_STORE 15)) = STATIC_STORE"
    by (rule conjunct2 [THEN conjunct2, THEN conjunct2, THEN conjunct1])
  from t have t5: "snd (store_applyAntiRepetition ?s STATIC_STORE 15)
                     ! fst (store_applyAntiRepetition ?s STATIC_STORE 15)
                   = [(''V'', 0.18), (''I'', 0.14), (''ii'', 0.20)]"
    by (rule conjunct2 [THEN conjunct2, THEN conjunct2, THEN conjunct2, THEN conjunct1])
  from t have t8: "store_peekLikelyNextDegree (?s, STATIC_STORE @ []) = (''ii'', ?s, STATIC_STORE @ [])"
    by (rule conjunct2 [THEN conjunct2, THEN conjunct2, THEN conjunct2, THEN conjunct2,
          THEN conjunct2, THEN conjunct2, THEN conjunct1])
  from a row t2 t3 t4 t5 t8 show ?thesis by simp
qed

end
